theory Spec2Isabelle
  imports Complex_Main "HOL-Library.Log_Nat"
begin

section \<open>Values, cells and exceptions\<close>

text \<open>
  The notebook \<^verbatim>\<open>Quantitative_value_investing_strategy.ipynb\<close> keeps its table in a
  pandas DataFrame built row by row. The provider's numeric fields arrive as JSON numbers
  or JSON \<^verbatim>\<open>null\<close> (Python \<^verbatim>\<open>None\<close>); the notebook itself adds \<^verbatim>\<open>np.NaN\<close>. A
  cell of a numeric column is modelled as the Python object put there: a number,
  \<^verbatim>\<open>None\<close> or NaN, the last two both counting as missing for pandas. In the ratios,
  means and percentiles a floating-point number is idealised as the exact rational it
  stands for, so rounding, overflow and infinities are left out there. The number of
  shares is the floor of a quotient, which rounding can move across an integer: that
  computation is modelled in double precision, further below.
\<close>

datatype pyval = PyNone | PyNum rat | PyNaN

text \<open>
  The percentile, share and score columns start as the string \<^verbatim>\<open>'N/A'\<close> and are
  overwritten later with computed values.
\<close>

datatype cell = NA | Val pyval

text \<open>The Python exceptions that the modelled statements can raise.\<close>

datatype error = TypeError | ZeroDivisionError | ValueError | StatisticsError | OverflowError

text \<open>
  Python's true division \<^verbatim>\<open>a / b\<close> on these values: an operand \<^verbatim>\<open>None\<close> is a
  \<^verbatim>\<open>TypeError\<close> (decided before the divisor is looked at), a zero divisor is a
  \<^verbatim>\<open>ZeroDivisionError\<close>, and NaN propagates.
\<close>

fun truediv :: "pyval \<Rightarrow> pyval \<Rightarrow> error + pyval" where
  "truediv PyNone _ = Inl TypeError"
| "truediv _ PyNone = Inl TypeError"
| "truediv (PyNum a) (PyNum b) = (if b = 0 then Inl ZeroDivisionError else Inr (PyNum (a / b)))"
| "truediv PyNaN (PyNum b) = (if b = 0 then Inl ZeroDivisionError else Inr PyNaN)"
| "truediv (PyNum a) PyNaN = Inr PyNaN"
| "truediv PyNaN PyNaN = Inr PyNaN"

text \<open>\<^verbatim>\<open>pd.isna\<close> on a cell of a metric column.\<close>

fun isna :: "pyval \<Rightarrow> bool" where
  "isna PyNone = True"
| "isna PyNaN = True"
| "isna (PyNum _) = False"

section \<open>The table\<close>

text \<open>The fields of one symbol in the provider's batch response that the notebook reads.\<close>

record raw_fields =
  latestPrice :: pyval
  peRatio :: pyval
  priceToBook :: pyval
  priceToSales :: pyval
  enterpriseValue :: pyval
  EBITDA :: pyval
  grossProfit :: pyval

text \<open>One row of \<^verbatim>\<open>rv_dataframe\<close>, with the fourteen columns of \<^verbatim>\<open>rv_columns\<close>.\<close>

record row =
  Ticker :: string
  Price :: pyval
  Number_of_Shares_to_Buy :: cell
  Price_to_Earnings_Ratio :: pyval
  PE_Percentile :: cell
  Price_to_Book_Ratio :: pyval
  PB_Percentile :: cell
  Price_to_Sales_Ratio :: pyval
  PS_Percentile :: cell
  EV_EBITDA :: pyval
  EV_EBITDA_Percentile :: cell
  EV_GP :: pyval
  EV_GP_Percentile :: cell
  RV_Score :: cell

type_synonym dataframe = "row list"

text \<open>
  The dictionary \<^verbatim>\<open>metrics\<close> maps each metric column to its percentile column; its keys
  are iterated in insertion order.
\<close>

datatype metric = PE | PB | PS | EVEBITDA | EVGP

definition metrics_keys :: "metric list" where
  "metrics_keys = [PE, PB, PS, EVEBITDA, EVGP]"

fun get_metric :: "metric \<Rightarrow> row \<Rightarrow> pyval" where
  "get_metric PE r = Price_to_Earnings_Ratio r"
| "get_metric PB r = Price_to_Book_Ratio r"
| "get_metric PS r = Price_to_Sales_Ratio r"
| "get_metric EVEBITDA r = EV_EBITDA r"
| "get_metric EVGP r = EV_GP r"

fun set_metric :: "metric \<Rightarrow> pyval \<Rightarrow> row \<Rightarrow> row" where
  "set_metric PE v r = r\<lparr>Price_to_Earnings_Ratio := v\<rparr>"
| "set_metric PB v r = r\<lparr>Price_to_Book_Ratio := v\<rparr>"
| "set_metric PS v r = r\<lparr>Price_to_Sales_Ratio := v\<rparr>"
| "set_metric EVEBITDA v r = r\<lparr>EV_EBITDA := v\<rparr>"
| "set_metric EVGP v r = r\<lparr>EV_GP := v\<rparr>"

fun get_percentile :: "metric \<Rightarrow> row \<Rightarrow> cell" where
  "get_percentile PE r = PE_Percentile r"
| "get_percentile PB r = PB_Percentile r"
| "get_percentile PS r = PS_Percentile r"
| "get_percentile EVEBITDA r = EV_EBITDA_Percentile r"
| "get_percentile EVGP r = EV_GP_Percentile r"

fun set_percentile :: "metric \<Rightarrow> cell \<Rightarrow> row \<Rightarrow> row" where
  "set_percentile PE c r = r\<lparr>PE_Percentile := c\<rparr>"
| "set_percentile PB c r = r\<lparr>PB_Percentile := c\<rparr>"
| "set_percentile PS c r = r\<lparr>PS_Percentile := c\<rparr>"
| "set_percentile EVEBITDA c r = r\<lparr>EV_EBITDA_Percentile := c\<rparr>"
| "set_percentile EVGP c r = r\<lparr>EV_GP_Percentile := c\<rparr>"

text \<open>The column of a metric, as \<^verbatim>\<open>rv_dataframe[metric]\<close> reads it.\<close>

definition column :: "metric \<Rightarrow> dataframe \<Rightarrow> pyval list" where
  "column m df = map (get_metric m) df"

section \<open>Computing the ratios\<close>

text \<open>
  \<^verbatim>\<open>
  try:
      ev_to_ebitda = enterprise_value/ebitda
  except TypeError:
      ev_to_ebitda = np.NaN
  \<close>
  Only \<^verbatim>\<open>TypeError\<close> is caught; any other exception leaves the block.
\<close>

definition ev_ratio :: "pyval \<Rightarrow> pyval \<Rightarrow> error + pyval" where
  "ev_ratio enterprise_value denominator =
     (case truediv enterprise_value denominator of
        Inl TypeError \<Rightarrow> Inr PyNaN
      | Inl e \<Rightarrow> Inl e
      | Inr v \<Rightarrow> Inr v)"

text \<open>The body of the inner loop for one symbol: both ratios, then the appended row.\<close>

definition build_row :: "string \<Rightarrow> raw_fields \<Rightarrow> error + row" where
  "build_row symbol d =
     (case ev_ratio (enterpriseValue d) (EBITDA d) of
        Inl e \<Rightarrow> Inl e
      | Inr ev_to_ebitda \<Rightarrow>
          (case ev_ratio (enterpriseValue d) (grossProfit d) of
             Inl e \<Rightarrow> Inl e
           | Inr ev_to_gross_profit \<Rightarrow>
               Inr \<lparr>Ticker = symbol,
                    Price = latestPrice d,
                    Number_of_Shares_to_Buy = NA,
                    Price_to_Earnings_Ratio = peRatio d,
                    PE_Percentile = NA,
                    Price_to_Book_Ratio = priceToBook d,
                    PB_Percentile = NA,
                    Price_to_Sales_Ratio = priceToSales d,
                    PS_Percentile = NA,
                    EV_EBITDA = ev_to_ebitda,
                    EV_EBITDA_Percentile = NA,
                    EV_GP = ev_to_gross_profit,
                    EV_GP_Percentile = NA,
                    RV_Score = NA\<rparr>))"

text \<open>The loop over the symbols: the first exception ends it.\<close>

fun build_dataframe :: "(string \<times> raw_fields) list \<Rightarrow> error + dataframe" where
  "build_dataframe [] = Inr []"
| "build_dataframe ((symbol, d) # rest) =
     (case build_row symbol d of
        Inl e \<Rightarrow> Inl e
      | Inr r \<Rightarrow> (case build_dataframe rest of Inl e \<Rightarrow> Inl e | Inr df \<Rightarrow> Inr (r # df)))"

section \<open>Filling in missing data\<close>

text \<open>
  \<^verbatim>\<open>
  for column in ['Price-to-Earnings Ratio', 'Price-to-Book Ratio','Price-to-Sales Ratio',  'EV/EBITDA','EV/GP']:
      rv_dataframe[column].fillna(rv_dataframe[column].mean(), inplace = True)
  \<close>
  \<^verbatim>\<open>mean\<close> skips the missing cells and is NaN when none is left; \<^verbatim>\<open>fillna\<close>
  writes its argument into every missing cell and leaves the others alone.
\<close>

fun defined_values :: "pyval list \<Rightarrow> rat list" where
  "defined_values [] = []"
| "defined_values (PyNum x # vs) = x # defined_values vs"
| "defined_values (_ # vs) = defined_values vs"

definition col_mean :: "pyval list \<Rightarrow> pyval" where
  "col_mean vs =
     (let xs = defined_values vs
      in if xs = [] then PyNaN else PyNum (sum_list xs / of_nat (length xs)))"

definition fillna :: "pyval \<Rightarrow> pyval \<Rightarrow> pyval" where
  "fillna v c = (if isna c then v else c)"

definition impute_column :: "metric \<Rightarrow> dataframe \<Rightarrow> dataframe" where
  "impute_column m df =
     (let mean = col_mean (column m df)
      in map (\<lambda>r. set_metric m (fillna mean (get_metric m r)) r) df)"

definition impute :: "dataframe \<Rightarrow> dataframe" where
  "impute df = fold impute_column [PE, PB, PS, EVEBITDA, EVGP] df"

section \<open>Loops over the rows\<close>

text \<open>
  \<^verbatim>\<open>for row in rv_dataframe.index: body\<close>, where the body updates the table in place
  or raises: the table is passed from one iteration to the next and the first exception
  ends the loop. The cells written before the exception stay written, so a failure is the
  exception together with the table as it was left. The index of the table is
  \<open>[0..<length df]\<close>.
\<close>

type_synonym outcome = "(error \<times> dataframe) + dataframe"

fun for_rows :: "(dataframe \<Rightarrow> nat \<Rightarrow> outcome) \<Rightarrow> dataframe \<Rightarrow> nat list \<Rightarrow> outcome" where
  "for_rows body df [] = Inr df"
| "for_rows body df (row # rows) =
     (case body df row of
        Inl failure \<Rightarrow> Inl failure
      | Inr df' \<Rightarrow> for_rows body df' rows)"

section \<open>Percentiles\<close>

text \<open>
  \<^verbatim>\<open>scipy.stats.percentileofscore(a, score)\<close> is called with its default
  \<^verbatim>\<open>kind='rank'\<close>. The library function, as shipped for the notebook's Python 3.8:
  \<^verbatim>\<open>
  if np.isnan(score): return np.nan
  a = np.asarray(a); n = len(a)
  if n == 0: return 100.0
  left = np.count_nonzero(a < score)
  right = np.count_nonzero(a <= score)
  pct = (right + left + (1 if right > left else 0)) * 50.0/n
  \<close>
  \<^verbatim>\<open>np.isnan(None)\<close> and the comparison of \<^verbatim>\<open>None\<close> with a number are
  \<^verbatim>\<open>TypeError\<close>s; every comparison with NaN is false.
\<close>

fun less_score :: "pyval \<Rightarrow> rat \<Rightarrow> bool" where
  "less_score (PyNum a) score = (a < score)"
| "less_score _ score = False"

fun less_eq_score :: "pyval \<Rightarrow> rat \<Rightarrow> bool" where
  "less_eq_score (PyNum a) score = (a \<le> score)"
| "less_eq_score _ score = False"

fun percentileofscore :: "pyval list \<Rightarrow> pyval \<Rightarrow> error + pyval" where
  "percentileofscore a PyNone = Inl TypeError"
| "percentileofscore a PyNaN = Inr PyNaN"
| "percentileofscore a (PyNum score) =
     (let n = length a
      in if n = 0 then Inr (PyNum 100)
         else if PyNone \<in> set a then Inl TypeError
         else let left = length (filter (\<lambda>v. less_score v score) a);
                  right = length (filter (\<lambda>v. less_eq_score v score) a);
                  pct = of_nat (right + left + (if right > left then 1 else 0)) * 50 / of_nat n
              in Inr (PyNum pct))"

text \<open>
  \<^verbatim>\<open>
  for row in rv_dataframe.index:
      for metric in metrics.keys():
          rv_dataframe.loc[row, metrics[metric]] =
              stats.percentileofscore(rv_dataframe[metric], rv_dataframe.loc[row, metric])/100
  \<close>
  The table is threaded through both loops, one cell written per step.
\<close>

definition percentile_cell :: "dataframe \<Rightarrow> metric \<Rightarrow> pyval \<Rightarrow> error + pyval" where
  "percentile_cell df m v =
     (case percentileofscore (column m df) v of
        Inl e \<Rightarrow> Inl e
      | Inr p \<Rightarrow> truediv p (PyNum 100))"

fun percentile_metrics :: "dataframe \<Rightarrow> nat \<Rightarrow> metric list \<Rightarrow> outcome" where
  "percentile_metrics df row [] = Inr df"
| "percentile_metrics df row (m # ms) =
     (case percentile_cell df m (get_metric m (df ! row)) of
        Inl e \<Rightarrow> Inl (e, df)
      | Inr q \<Rightarrow> percentile_metrics (df[row := set_percentile m (Val q) (df ! row)]) row ms)"

definition calculate_percentiles :: "dataframe \<Rightarrow> outcome" where
  "calculate_percentiles df =
     for_rows (\<lambda>df row. percentile_metrics df row metrics_keys) df [0..<length df]"

section \<open>The RV score\<close>

text \<open>
  \<^verbatim>\<open>statistics.mean\<close>: no data is a \<^verbatim>\<open>StatisticsError\<close>, a string or
  \<^verbatim>\<open>None\<close> among the data is a \<^verbatim>\<open>TypeError\<close>, a NaN makes the mean NaN.
\<close>

fun cell_values :: "cell list \<Rightarrow> rat list" where
  "cell_values [] = []"
| "cell_values (Val (PyNum x) # cs) = x # cell_values cs"
| "cell_values (_ # cs) = cell_values cs"

definition py_mean :: "cell list \<Rightarrow> error + pyval" where
  "py_mean data =
     (if length data < 1 then Inl StatisticsError
      else if NA \<in> set data \<or> Val PyNone \<in> set data then Inl TypeError
      else if Val PyNaN \<in> set data then Inr PyNaN
      else Inr (PyNum (sum_list (cell_values data) / of_nat (length data))))"

text \<open>
  \<^verbatim>\<open>
  for row in rv_dataframe.index:
      value_percentiles = []
      for metric in metrics.keys():
          value_percentiles.append(rv_dataframe.loc[row, metrics[metric]])
      rv_dataframe.loc[row, 'RV Score'] = mean(value_percentiles)
  \<close>
\<close>

definition rv_row :: "dataframe \<Rightarrow> nat \<Rightarrow> outcome" where
  "rv_row df row =
     (let value_percentiles = map (\<lambda>m. get_percentile m (df ! row)) metrics_keys
      in case py_mean value_percentiles of
           Inl e \<Rightarrow> Inl (e, df)
         | Inr s \<Rightarrow> Inr (df[row := (df ! row)\<lparr>RV_Score := Val s\<rparr>]))"

definition calculate_rv_score :: "dataframe \<Rightarrow> outcome" where
  "calculate_rv_score df = for_rows rv_row df [0..<length df]"

section \<open>Double-precision numbers\<close>

text \<open>
  A Python \<^verbatim>\<open>float\<close> is an IEEE 754 binary64 number: a finite double, an infinity or a
  NaN. A finite double is identified with the rational it denotes; the sign of zero is not
  kept, since nothing below depends on it.
\<close>

datatype pyfloat = Float rat | PosInf | NegInf | FloatNaN

text \<open>
  Rounding a rational to the nearest double, ties to even. For \<open>x > 0\<close>, \<open>ilog2 x\<close> is
  the integer \<open>e\<close> with \<^verbatim>\<open>2^e <= x < 2^(e+1)\<close>. The doubles from \<^verbatim>\<open>2^e\<close> to
  \<^verbatim>\<open>2^(e+1)\<close> are \<^verbatim>\<open>2^(e-52)\<close> apart, and those below \<^verbatim>\<open>2^-1022\<close> (the subnormal
  numbers) are \<^verbatim>\<open>2^-1074\<close> apart. A rounded value of magnitude \<^verbatim>\<open>2^1024\<close> or more is
  an overflow.
\<close>

definition ilog2 :: "rat \<Rightarrow> int" where
  "ilog2 x = (if 1 \<le> x then bitlen \<lfloor>x\<rfloor> - 1 else - bitlen (\<lceil>1 / x\<rceil> - 1))"

definition quantum :: "rat \<Rightarrow> rat" where
  "quantum x = 2 powi (max (ilog2 \<bar>x\<bar>) (- 1022) - 52)"

definition round_half_even :: "rat \<Rightarrow> int" where
  "round_half_even y =
     (let f = \<lfloor>y\<rfloor>; d = y - of_int f
      in if d < 1 / 2 then f else if 1 / 2 < d then f + 1 else if even f then f else f + 1)"

definition round_to_double :: "rat \<Rightarrow> rat" where
  "round_to_double x =
     (if x = 0 then 0 else of_int (round_half_even (x / quantum x)) * quantum x)"

definition to_float :: "rat \<Rightarrow> pyfloat" where
  "to_float x =
     (let r = round_to_double x
      in if 2 ^ 1024 \<le> r then PosInf else if r \<le> - (2 ^ 1024) then NegInf else Float r)"

text \<open>
  \<^verbatim>\<open>a / b\<close> on floats: Python raises \<^verbatim>\<open>ZeroDivisionError\<close> for a zero divisor,
  whatever the dividend; otherwise the quotient is the IEEE one.
\<close>

fun float_truediv :: "pyfloat \<Rightarrow> pyfloat \<Rightarrow> error + pyfloat" where
  "float_truediv a (Float b) =
     (if b = 0 then Inl ZeroDivisionError
      else case a of
             Float x \<Rightarrow> Inr (to_float (x / b))
           | PosInf \<Rightarrow> Inr (if 0 < b then PosInf else NegInf)
           | NegInf \<Rightarrow> Inr (if 0 < b then NegInf else PosInf)
           | FloatNaN \<Rightarrow> Inr FloatNaN)"
| "float_truediv a FloatNaN = Inr FloatNaN"
| "float_truediv (Float x) b = Inr (Float 0)"
| "float_truediv FloatNaN b = Inr FloatNaN"
| "float_truediv a b = Inr FloatNaN"

text \<open>
  \<^verbatim>\<open>math.floor\<close>: NaN cannot be converted to an integer (\<^verbatim>\<open>ValueError\<close>), nor can
  an infinity (\<^verbatim>\<open>OverflowError\<close>).
\<close>

fun math_floor :: "pyfloat \<Rightarrow> error + int" where
  "math_floor (Float q) = Inr \<lfloor>q\<rfloor>"
| "math_floor FloatNaN = Inl ValueError"
| "math_floor _ = Inl OverflowError"

text \<open>
  The right operand of \<^verbatim>\<open>float / cell\<close>: a float is taken as it is, an integer is
  converted to the nearest double and is an \<^verbatim>\<open>OverflowError\<close> when too large, and
  \<^verbatim>\<open>None\<close> is a \<^verbatim>\<open>TypeError\<close>.
\<close>

fun as_float :: "pyval \<Rightarrow> error + pyfloat" where
  "as_float (PyNum p) = (case to_float p of Float r \<Rightarrow> Inr (Float r) | _ \<Rightarrow> Inl OverflowError)"
| "as_float PyNaN = Inr FloatNaN"
| "as_float PyNone = Inl TypeError"

section \<open>Portfolio size and the number of shares\<close>

text \<open>
  \<^verbatim>\<open>
  def portfolio_input():
      global portfolio_size
      portfolio_size = input("Enter the value of your portfolio:")
      try:
          val = float(portfolio_size)
      except ValueError:
          print("That's not a number! \n Try again:")
          portfolio_size = input("Enter the value of your portfolio:")
  \<close>
  The user's entries are a stream and the state is the position of the next entry. The
  built-in \<^verbatim>\<open>float\<close> on strings is a parameter \<open>py_float\<close>, with \<open>None\<close> for
  \<^verbatim>\<open>ValueError\<close>. The function returns the global \<^verbatim>\<open>portfolio_size\<close> and the new
  position.
\<close>

definition portfolio_input ::
  "(string \<Rightarrow> pyfloat option) \<Rightarrow> (nat \<Rightarrow> string) \<Rightarrow> nat \<Rightarrow> string \<times> nat" where
  "portfolio_input py_float entries k =
     (let portfolio_size = entries k
      in case py_float portfolio_size of
           Some val \<Rightarrow> (portfolio_size, Suc k)
         | None \<Rightarrow> (entries (Suc k), Suc (Suc k)))"

text \<open>
  \<^verbatim>\<open>float\<close> on ASCII strings, for evaluation: surrounding whitespace is stripped; then
  come an optional sign and either \<^verbatim>\<open>inf\<close>, \<^verbatim>\<open>infinity\<close> or \<^verbatim>\<open>nan\<close> in any case,
  or a decimal number with an optional fraction and an optional exponent, where single
  underscores may stand between digits. The value is the nearest double, an infinity on
  overflow.
\<close>

definition is_space :: "char \<Rightarrow> bool" where
  "is_space c = (let n = (of_char c :: nat) in (9 \<le> n \<and> n \<le> 13) \<or> (28 \<le> n \<and> n \<le> 32))"

definition strip :: "string \<Rightarrow> string" where
  "strip s = rev (dropWhile is_space (rev (dropWhile is_space s)))"

definition lower :: "char \<Rightarrow> char" where
  "lower c = (let n = (of_char c :: nat) in if 65 \<le> n \<and> n \<le> 90 then char_of (n + 32) else c)"

definition digit :: "char \<Rightarrow> nat option" where
  "digit c = (let n = (of_char c :: nat) in if 48 \<le> n \<and> n \<le> 57 then Some (n - 48) else None)"

fun take_digits :: "string \<Rightarrow> nat list \<times> string" where
  "take_digits [] = ([], [])"
| "take_digits [c] = (case digit c of None \<Rightarrow> ([], [c]) | Some d \<Rightarrow> ([d], []))"
| "take_digits (c # u # cs) =
     (case digit c of
        None \<Rightarrow> ([], c # u # cs)
      | Some d \<Rightarrow>
          (case take_digits (if u = CHR ''_'' \<and> cs \<noteq> [] \<and> digit (hd cs) \<noteq> None then cs else u # cs) of
             (ds, rest) \<Rightarrow> (d # ds, rest)))"

definition digits_value :: "nat list \<Rightarrow> nat" where
  "digits_value ds = foldl (\<lambda>a d. 10 * a + d) 0 ds"

definition exponent :: "string \<Rightarrow> int option" where
  "exponent s =
     (case s of
        [] \<Rightarrow> Some 0
      | c # t \<Rightarrow>
          if c = CHR ''e'' \<or> c = CHR ''E'' then
            (let negative = (t \<noteq> [] \<and> hd t = CHR ''-'');
                 signed = (t \<noteq> [] \<and> (hd t = CHR ''-'' \<or> hd t = CHR ''+''))
             in case take_digits (if signed then tl t else t) of
                  (ds, rest) \<Rightarrow>
                    if ds = [] \<or> rest \<noteq> [] then None
                    else Some (if negative then - int (digits_value ds) else int (digits_value ds)))
          else None)"

definition decimal :: "string \<Rightarrow> rat option" where
  "decimal s =
     (case take_digits s of
        (int_part, r1) \<Rightarrow>
          (case (if r1 \<noteq> [] \<and> hd r1 = CHR ''.'' then take_digits (tl r1) else ([], r1)) of
             (frac_part, r2) \<Rightarrow>
               if int_part = [] \<and> frac_part = [] then None
               else (case exponent r2 of
                       None \<Rightarrow> None
                     | Some e \<Rightarrow>
                         Some (of_nat (digits_value (int_part @ frac_part)) *
                               10 powi (e - int (length frac_part))))))"

definition float_of_string :: "string \<Rightarrow> pyfloat option" where
  "float_of_string s =
     (let t = strip s;
          negative = (t \<noteq> [] \<and> hd t = CHR ''-'');
          signed = (t \<noteq> [] \<and> (hd t = CHR ''-'' \<or> hd t = CHR ''+''));
          body = (if signed then tl t else t);
          word = map lower body
      in if word = ''inf'' \<or> word = ''infinity'' then Some (if negative then NegInf else PosInf)
         else if word = ''nan'' then Some FloatNaN
         else case decimal body of
                None \<Rightarrow> None
              | Some v \<Rightarrow> Some (to_float (if negative then - v else v)))"

text \<open>
  \<^verbatim>\<open>
  position_size = float(portfolio_size) / len(rv_dataframe.index)
  for row in rv_dataframe.index:
      rv_dataframe.loc[row, 'Number of Shares to Buy'] =
          math.floor(position_size / rv_dataframe['Price'][row])
  \<close>
  The length of the table is an integer below \<^verbatim>\<open>2^53\<close>, which the division converts
  to a double without rounding.
\<close>

definition shares_of :: "pyfloat \<Rightarrow> pyval \<Rightarrow> error + int" where
  "shares_of position_size price =
     (case as_float price of
        Inl e \<Rightarrow> Inl e
      | Inr p \<Rightarrow>
          (case float_truediv position_size p of
             Inl e \<Rightarrow> Inl e
           | Inr q \<Rightarrow> math_floor q))"

definition shares_row :: "pyfloat \<Rightarrow> dataframe \<Rightarrow> nat \<Rightarrow> outcome" where
  "shares_row position_size df row =
     (case shares_of position_size (Price (df ! row)) of
        Inl e \<Rightarrow> Inl (e, df)
      | Inr k \<Rightarrow>
          Inr (df[row := (df ! row)\<lparr>Number_of_Shares_to_Buy := Val (PyNum (of_int k))\<rparr>]))"

definition calculate_shares ::
  "(string \<Rightarrow> pyfloat option) \<Rightarrow> string \<Rightarrow> dataframe \<Rightarrow> outcome" where
  "calculate_shares py_float portfolio_size df =
     (case py_float portfolio_size of
        None \<Rightarrow> Inl (ValueError, df)
      | Some budget \<Rightarrow>
          (case float_truediv budget (Float (of_nat (length df))) of
             Inl e \<Rightarrow> Inl (e, df)
           | Inr position_size \<Rightarrow>
               for_rows (shares_row position_size) df [0..<length df]))"

section \<open>Notions used in the statements\<close>

text \<open>The nine columns that are not metric columns.\<close>

definition other_columns ::
  "row \<Rightarrow> string \<times> pyval \<times> cell \<times> cell \<times> cell \<times> cell \<times> cell \<times> cell \<times> cell" where
  "other_columns r =
     (Ticker r, Price r, Number_of_Shares_to_Buy r, PE_Percentile r, PB_Percentile r,
      PS_Percentile r, EV_EBITDA_Percentile r, EV_GP_Percentile r, RV_Score r)"

text \<open>A metric column with at least one defined cell, and one with no missing cell.\<close>

definition has_value :: "metric \<Rightarrow> dataframe \<Rightarrow> bool" where
  "has_value m df = list_ex (\<lambda>r. \<not> isna (get_metric m r)) df"

definition no_missing :: "metric \<Rightarrow> dataframe \<Rightarrow> bool" where
  "no_missing m df = list_all (\<lambda>r. \<not> isna (get_metric m r)) df"

section \<open>Example tables\<close>

definition sample_row :: row where
  "sample_row =
     \<lparr>Ticker = ''A'', Price = PyNum 100, Number_of_Shares_to_Buy = NA,
      Price_to_Earnings_Ratio = PyNum 10, PE_Percentile = NA,
      Price_to_Book_Ratio = PyNum 2, PB_Percentile = NA,
      Price_to_Sales_Ratio = PyNum 3, PS_Percentile = NA,
      EV_EBITDA = PyNum 8, EV_EBITDA_Percentile = NA,
      EV_GP = PyNum 5, EV_GP_Percentile = NA, RV_Score = NA\<rparr>"

text \<open>Three symbols with price-to-earnings ratios 10, 20 and a missing one.\<close>

definition three_rows :: dataframe where
  "three_rows =
     [sample_row,
      sample_row\<lparr>Ticker := ''B'', Price_to_Earnings_Ratio := PyNum 20\<rparr>,
      sample_row\<lparr>Ticker := ''C'', Price_to_Earnings_Ratio := PyNone\<rparr>]"

section \<open>Notions used in the proofs about loops\<close>

text \<open>
  While a loop over the rows runs from the table \<open>df0\<close>, the rows in \<open>V\<close> have been
  visited and hold the row that \<open>h\<close> gives for them; the others are as in \<open>df0\<close>.
\<close>

definition visited ::
  "(nat \<Rightarrow> error + row) \<Rightarrow> dataframe \<Rightarrow> dataframe \<Rightarrow> nat set \<Rightarrow> bool" where
  "visited h df0 df V =
     (length df = length df0 \<and>
      (\<forall>j<length df0. if j \<in> V then h j = Inr (df ! j) else df ! j = df0 ! j))"

text \<open>
  A loop body follows \<open>h\<close>: on a row not yet visited it raises what \<open>h\<close> raises,
  or writes the row that \<open>h\<close> gives. It raises early when it raises before it writes.
\<close>

definition follows ::
  "(dataframe \<Rightarrow> nat \<Rightarrow> outcome) \<Rightarrow> (nat \<Rightarrow> error + row) \<Rightarrow> dataframe \<Rightarrow> bool" where
  "follows body h df0 =
     (\<forall>df V i. visited h df0 df V \<longrightarrow> i \<notin> V \<longrightarrow> i < length df0 \<longrightarrow>
        (case h i of
           Inl e \<Rightarrow> (\<exists>df'. body df i = Inl (e, df'))
         | Inr r \<Rightarrow> body df i = Inr (df[i := r])))"

definition raises_early ::
  "(dataframe \<Rightarrow> nat \<Rightarrow> outcome) \<Rightarrow> (nat \<Rightarrow> error + row) \<Rightarrow> dataframe \<Rightarrow> bool" where
  "raises_early body h df0 =
     (\<forall>df V i. visited h df0 df V \<longrightarrow> i \<notin> V \<longrightarrow> i < length df0 \<longrightarrow>
        body df i = (case h i of Inl e \<Rightarrow> Inl (e, df) | Inr r \<Rightarrow> Inr (df[i := r])))"

text \<open>The percentile cells of one row, computed against the columns of \<open>df\<close>.\<close>

fun percentile_row :: "dataframe \<Rightarrow> row \<Rightarrow> metric list \<Rightarrow> error + row" where
  "percentile_row df r [] = Inr r"
| "percentile_row df r (m # ms) =
     (case percentile_cell df m (get_metric m r) of
        Inl e \<Rightarrow> Inl e
      | Inr q \<Rightarrow> percentile_row df (set_percentile m (Val q) r) ms)"

text \<open>The numbers held by a value and by a cell (0 when it holds no number).\<close>

fun number :: "pyval \<Rightarrow> rat" where
  "number (PyNum x) = x"
| "number _ = 0"

fun cell_number :: "cell \<Rightarrow> rat" where
  "cell_number (Val v) = number v"
| "cell_number NA = 0"

text \<open>The money the computed share counts cost: the sum of shares times price.\<close>

definition allocated_value :: "dataframe \<Rightarrow> rat" where
  "allocated_value df =
     sum_list (map (\<lambda>r. cell_number (Number_of_Shares_to_Buy r) * number (Price r)) df)"

text \<open>The string handed to the allocation stage parses as a positive number.\<close>

definition positive_number :: "(string \<Rightarrow> pyfloat option) \<Rightarrow> string \<Rightarrow> bool" where
  "positive_number py_float s =
     (case py_float s of
        Some (Float v) \<Rightarrow> 0 < v
      | Some PosInf \<Rightarrow> True
      | _ \<Rightarrow> False)"

text \<open>A user who types \<open>a\<close> first and \<open>b\<close> at every later prompt.\<close>

definition typing :: "string \<Rightarrow> string \<Rightarrow> nat \<Rightarrow> string" where
  "typing a b n = (if n = 0 then a else b)"

text \<open>What the share loop does to row \<open>i\<close> of the table \<open>df0\<close>.\<close>

definition shares_result :: "pyfloat \<Rightarrow> dataframe \<Rightarrow> nat \<Rightarrow> error + row" where
  "shares_result position_size df0 i =
     (case shares_of position_size (Price (df0 ! i)) of
        Inl e \<Rightarrow> Inl e
      | Inr k \<Rightarrow> Inr ((df0 ! i)\<lparr>Number_of_Shares_to_Buy := Val (PyNum (of_int k))\<rparr>))"

text \<open>The relative error of rounding to a double is at most \<open>1 / 2 ^ 53\<close>.\<close>

definition rounding_unit :: rat where
  "rounding_unit = 1 / 2 ^ 53"

text \<open>The columns that the percentile loop neither reads nor writes.\<close>

definition fixed_columns :: "row \<Rightarrow> string \<times> pyval \<times> cell \<times> cell" where
  "fixed_columns r = (Ticker r, Price r, Number_of_Shares_to_Buy r, RV_Score r)"

text \<open>
  Counting rows by the value of a metric: the rows strictly below \<open>x\<close>, the rows up to
  \<open>x\<close> and the rows equal to \<open>x\<close>.
\<close>

definition metric_value :: "metric \<Rightarrow> row \<Rightarrow> rat" where
  "metric_value m r = number (get_metric m r)"

definition rows_below :: "metric \<Rightarrow> dataframe \<Rightarrow> rat \<Rightarrow> nat" where
  "rows_below m df x = length (filter (\<lambda>r. metric_value m r < x) df)"

definition rows_upto :: "metric \<Rightarrow> dataframe \<Rightarrow> rat \<Rightarrow> nat" where
  "rows_upto m df x = length (filter (\<lambda>r. metric_value m r \<le> x) df)"

definition rows_equal :: "metric \<Rightarrow> dataframe \<Rightarrow> rat \<Rightarrow> nat" where
  "rows_equal m df x = length (filter (\<lambda>r. metric_value m r = x) df)"

text \<open>
  The percentile the notebook gives to a value \<open>x\<close> that occurs in the column: the mean
  of the strict and the weak rank, counting \<open>x\<close> itself once.
\<close>

definition rank_percentile :: "metric \<Rightarrow> dataframe \<Rightarrow> rat \<Rightarrow> rat" where
  "rank_percentile m df x =
     of_nat (rows_below m df x + rows_upto m df x + 1) / of_nat (2 * length df)"

text \<open>
  The percentile as the specification words it: the number of rows with a value up to
  \<open>x\<close>, divided by the number of rows.
\<close>

definition claimed_percentile :: "metric \<Rightarrow> dataframe \<Rightarrow> rat \<Rightarrow> rat" where
  "claimed_percentile m df x = of_nat (rows_upto m df x) / of_nat (length df)"

text \<open>The three symbols after imputation: the missing ratio has become the mean, 15.\<close>

definition imputed_rows :: dataframe where
  "imputed_rows =
     [sample_row,
      sample_row\<lparr>Ticker := ''B'', Price_to_Earnings_Ratio := PyNum 20\<rparr>,
      sample_row\<lparr>Ticker := ''C'', Price_to_Earnings_Ratio := PyNum 15\<rparr>]"

text \<open>Two symbols with the same value in every metric column, before and after ranking.\<close>

definition tied_rows :: dataframe where
  "tied_rows = [sample_row, sample_row\<lparr>Ticker := ''B''\<rparr>]"

definition three_quarters :: "row \<Rightarrow> row" where
  "three_quarters r =
     r\<lparr>PE_Percentile := Val (PyNum (3 / 4)), PB_Percentile := Val (PyNum (3 / 4)),
       PS_Percentile := Val (PyNum (3 / 4)), EV_EBITDA_Percentile := Val (PyNum (3 / 4)),
       EV_GP_Percentile := Val (PyNum (3 / 4))\<rparr>"

definition tied_ranked :: dataframe where
  "tied_ranked = map three_quarters tied_rows"

text \<open>A metric column in which every cell is NaN.\<close>

definition all_nan :: "metric \<Rightarrow> dataframe \<Rightarrow> bool" where
  "all_nan m df = list_all (\<lambda>r. get_metric m r = PyNaN) df"

text \<open>What the score loop does to row \<open>i\<close> of the table \<open>df0\<close>.\<close>

definition rv_result :: "dataframe \<Rightarrow> nat \<Rightarrow> error + row" where
  "rv_result df0 i =
     (case py_mean (map (\<lambda>m. get_percentile m (df0 ! i)) metrics_keys) of
        Inl e \<Rightarrow> Inl e
      | Inr s \<Rightarrow> Inr ((df0 ! i)\<lparr>RV_Score := Val s\<rparr>))"

text \<open>
  The three cells of the notebook that follow the construction of the table, run one
  after the other: imputation, percentiles, RV score.
\<close>

definition rv_pipeline :: "dataframe \<Rightarrow> outcome" where
  "rv_pipeline df =
     (case calculate_percentiles (impute df) of
        Inl failure \<Rightarrow> Inl failure
      | Inr df1 \<Rightarrow> calculate_rv_score df1)"

text \<open>
  A single symbol whose EBITDA the provider does not have, so that its EV/EBITDA is the
  NaN of the \<^verbatim>\<open>except\<close> branch, and the table the three cells make of it.
\<close>

definition lonely_row :: row where
  "lonely_row = sample_row\<lparr>EV_EBITDA := PyNaN\<rparr>"

definition lonely_scored :: row where
  "lonely_scored =
     sample_row\<lparr>EV_EBITDA := PyNaN, PE_Percentile := Val (PyNum 1),
       PB_Percentile := Val (PyNum 1), PS_Percentile := Val (PyNum 1),
       EV_EBITDA_Percentile := Val PyNaN, EV_GP_Percentile := Val (PyNum 1),
       RV_Score := Val PyNaN\<rparr>"

text \<open>
  Tables for the share computation: one symbol at 2.72 (the double nearest to it) and one
  at -3, and a symbol with a zero price behind an ordinary one.
\<close>

definition cheap_row :: row where
  "cheap_row = sample_row\<lparr>Price := PyNum (round_to_double (272 / 100))\<rparr>"

definition negative_row :: row where
  "negative_row = sample_row\<lparr>Price := PyNum (- 3)\<rparr>"

definition zero_priced :: dataframe where
  "zero_priced = [sample_row, sample_row\<lparr>Ticker := ''B'', Price := PyNum 0\<rparr>]"

section \<open>Properties of the ratio computation\<close>

lemma ev_ratio_None_left: "ev_ratio PyNone d = Inr PyNaN"
  by (simp add: ev_ratio_def)

lemma ev_ratio_None_right: "ev_ratio ev PyNone = Inr PyNaN"
  by (cases ev) (simp_all add: ev_ratio_def)

lemma ev_ratio_zero: "ev \<noteq> PyNone \<Longrightarrow> ev_ratio ev (PyNum 0) = Inl ZeroDivisionError"
  by (cases ev) (simp_all add: ev_ratio_def)

lemma ev_ratio_quotient: "b \<noteq> 0 \<Longrightarrow> ev_ratio (PyNum a) (PyNum b) = Inr (PyNum (a / b))"
  by (simp add: ev_ratio_def)

text \<open>
  Claim C2. The spec asks that EV/EBITDA be computed without any exception, a zero
  denominator giving the undefined marker. The notebook catches \<^verbatim>\<open>TypeError\<close> only: a
  missing operand does give NaN (\<open>ev_ratio_None_left\<close>, \<open>ev_ratio_None_right\<close>), but
  for a symbol with enterprise value 1000 and EBITDA 0 the division raises
  \<^verbatim>\<open>ZeroDivisionError\<close>, which leaves the loop and no row is built.
\<close>

theorem zero_ebitda_raises:
  "build_row ''AAPL''
     \<lparr>latestPrice = PyNum 100, peRatio = PyNum 10, priceToBook = PyNum 2,
      priceToSales = PyNum 3, enterpriseValue = PyNum 1000, EBITDA = PyNum 0,
      grossProfit = PyNum 50\<rparr> = Inl ZeroDivisionError"
  by (simp add: build_row_def ev_ratio_def)

section \<open>Properties of the imputation\<close>

lemma get_set_metric: "get_metric m (set_metric m' v r) = (if m = m' then v else get_metric m r)"
  by (cases m; cases m'; simp)

lemma set_get_metric: "set_metric m (get_metric m r) r = r"
  by (cases m) simp_all

lemma get_percentile_set_metric: "get_percentile m (set_metric m' v r) = get_percentile m r"
  by (cases m; cases m'; simp)

lemma other_columns_set_metric: "other_columns (set_metric m v r) = other_columns r"
  by (cases m) (simp_all add: other_columns_def)

lemma length_impute_column: "length (impute_column m df) = length df"
  by (simp add: impute_column_def Let_def)

lemma nth_impute_column:
  "i < length df \<Longrightarrow> impute_column m df ! i =
     set_metric m (fillna (col_mean (column m df)) (get_metric m (df ! i))) (df ! i)"
  by (simp add: impute_column_def Let_def)

lemma length_impute: "length (impute df) = length df"
  by (simp add: impute_def length_impute_column)

lemma fillna_defined: "\<not> isna c \<Longrightarrow> fillna v c = c"
  by (simp add: fillna_def)

lemma impute_column_keeps:
  assumes "i < length df" "m' \<noteq> m \<or> \<not> isna (get_metric m' (df ! i))"
  shows "get_metric m' (impute_column m df ! i) = get_metric m' (df ! i)"
  using assms by (auto simp: nth_impute_column get_set_metric fillna_defined)

lemma impute_column_other:
  assumes "i < length df"
  shows "other_columns (impute_column m df ! i) = other_columns (df ! i)"
  using assms by (simp add: nth_impute_column other_columns_set_metric)

lemma fold_impute_column_keeps:
  assumes "i < length df" "\<not> isna (get_metric m' (df ! i))"
  shows "get_metric m' (fold impute_column ms df ! i) = get_metric m' (df ! i)"
  using assms
proof (induction ms arbitrary: df)
  case Nil
  then show ?case by simp
next
  case (Cons m ms)
  have l: "i < length (impute_column m df)"
    using Cons.prems by (simp add: length_impute_column)
  have k: "get_metric m' (impute_column m df ! i) = get_metric m' (df ! i)"
    using Cons.prems by (simp add: impute_column_keeps)
  from Cons.IH[OF l] k Cons.prems show ?case by simp
qed

lemma fold_impute_column_other:
  assumes "i < length df"
  shows "other_columns (fold impute_column ms df ! i) = other_columns (df ! i)"
  using assms
proof (induction ms arbitrary: df)
  case Nil
  then show ?case by simp
next
  case (Cons m ms)
  then show ?case by (simp add: impute_column_other length_impute_column)
qed

text \<open>
  Claim C10. Imputation changes missing cells only: the table keeps its length, in every
  row the nine columns that are not metric columns are unchanged, and every metric cell
  that was defined keeps its value.
\<close>

theorem impute_only_fills_missing:
  "length (impute df) = length df \<and>
   (\<forall>i<length df.
      other_columns (impute df ! i) = other_columns (df ! i) \<and>
      (\<forall>m. \<not> isna (get_metric m (df ! i)) \<longrightarrow>
           get_metric m (impute df ! i) = get_metric m (df ! i)))"
proof -
  have "\<forall>i<length df.
      other_columns (impute df ! i) = other_columns (df ! i) \<and>
      (\<forall>m. \<not> isna (get_metric m (df ! i)) \<longrightarrow>
           get_metric m (impute df ! i) = get_metric m (df ! i))"
    unfolding impute_def
    using fold_impute_column_keeps fold_impute_column_other by blast
  then show ?thesis by (simp add: length_impute)
qed

theorem impute_only_fills_missing_witness:
  "length (impute three_rows) = 3 \<and>
   other_columns (impute three_rows ! 2) = other_columns (three_rows ! 2) \<and>
   get_metric PE (impute three_rows ! 1) = PyNum 20"
proof -
  have l: "length three_rows = 3" by (simp add: three_rows_def)
  have d: "\<not> isna (get_metric PE (three_rows ! 1))" by (simp add: three_rows_def sample_row_def)
  have v: "get_metric PE (three_rows ! 1) = PyNum 20" by (simp add: three_rows_def sample_row_def)
  have i1: "1 < length three_rows" and i2: "2 < length three_rows" by (simp_all add: l)
  note t = impute_only_fills_missing[of three_rows]
  from t l have a: "length (impute three_rows) = 3" by simp
  from t i2 have b: "other_columns (impute three_rows ! 2) = other_columns (three_rows ! 2)"
    by blast
  from t i1 d have "get_metric PE (impute three_rows ! 1) = get_metric PE (three_rows ! 1)"
    by blast
  with v have c: "get_metric PE (impute three_rows ! 1) = PyNum 20" by simp
  from a b c show ?thesis by blast
qed

lemma defined_values_nonempty: "\<exists>v\<in>set vs. \<not> isna v \<Longrightarrow> defined_values vs \<noteq> []"
  by (induction vs rule: defined_values.induct) auto

lemma col_mean_defined: "\<exists>v\<in>set vs. \<not> isna v \<Longrightarrow> \<not> isna (col_mean vs)"
  by (simp add: col_mean_def Let_def defined_values_nonempty)

lemma impute_column_fills: "has_value m df \<Longrightarrow> no_missing m (impute_column m df)"
proof -
  assume "has_value m df"
  then have "\<exists>v\<in>set (column m df). \<not> isna v"
    by (auto simp: has_value_def column_def list_ex_iff)
  then have "\<not> isna (col_mean (column m df))" by (rule col_mean_defined)
  then show ?thesis
    by (auto simp: no_missing_def impute_column_def Let_def list_all_iff get_set_metric fillna_def)
qed

lemma impute_column_no_missing: "no_missing m df \<Longrightarrow> no_missing m (impute_column m' df)"
  by (auto simp: no_missing_def impute_column_def Let_def list_all_iff get_set_metric fillna_def)

lemma impute_column_has_value: "has_value m df \<Longrightarrow> has_value m (impute_column m' df)"
  by (auto simp: has_value_def impute_column_def Let_def list_ex_iff get_set_metric fillna_def)

lemma fold_impute_column_no_missing:
  "no_missing m df \<Longrightarrow> no_missing m (fold impute_column ms df)"
  by (induction ms arbitrary: df) (simp_all add: impute_column_no_missing)

lemma fold_impute_column_fills:
  "m \<in> set ms \<Longrightarrow> has_value m df \<Longrightarrow> no_missing m (fold impute_column ms df)"
proof (induction ms arbitrary: df)
  case Nil
  then show ?case by simp
next
  case (Cons m0 ms)
  show ?case
  proof (cases "m = m0")
    case True
    with Cons.prems show ?thesis
      by (simp add: impute_column_fills fold_impute_column_no_missing)
  next
    case False
    with Cons.prems have "m \<in> set ms" by simp
    moreover have "has_value m (impute_column m0 df)"
      using Cons.prems by (simp add: impute_column_has_value)
    ultimately show ?thesis using Cons.IH by simp
  qed
qed

lemma metric_listed: "m \<in> set [PE, PB, PS, EVEBITDA, EVGP]"
  by (cases m) simp_all

lemma impute_fills: "has_value m df \<Longrightarrow> no_missing m (impute df)"
  unfolding impute_def by (rule fold_impute_column_fills[OF metric_listed])

lemma impute_column_id: "no_missing m df \<Longrightarrow> impute_column m df = df"
  by (auto simp: no_missing_def impute_column_def Let_def list_all_iff fillna_def set_get_metric
      intro: map_idI)

lemma fold_impute_column_id: "\<forall>m\<in>set ms. no_missing m df \<Longrightarrow> fold impute_column ms df = df"
  by (induction ms) (simp_all add: impute_column_id)

text \<open>
  Claim C5. Imputation is idempotent: when each of the five metric columns has at least
  one defined cell, one pass leaves no missing cell in any of them, and a second pass
  returns the table of the first unchanged.
\<close>

theorem impute_idempotent:
  assumes "\<forall>m. has_value m df"
  shows "(\<forall>m. no_missing m (impute df)) \<and> impute (impute df) = impute df"
proof -
  have a: "\<forall>m. no_missing m (impute df)"
    using assms by (simp add: impute_fills)
  then have "fold impute_column [PE, PB, PS, EVEBITDA, EVGP] (impute df) = impute df"
    by (intro fold_impute_column_id) simp
  with a show ?thesis by (simp add: impute_def)
qed

theorem impute_idempotent_witness:
  "has_value PE three_rows \<and> \<not> no_missing PE three_rows \<and>
   no_missing PE (impute three_rows) \<and> impute (impute three_rows) = impute three_rows"
proof -
  have h: "\<forall>m. has_value m three_rows"
  proof
    fix m show "has_value m three_rows"
      by (cases m) (simp_all add: has_value_def three_rows_def sample_row_def)
  qed
  have n: "\<not> no_missing PE three_rows"
    by (simp add: no_missing_def three_rows_def sample_row_def)
  from impute_idempotent[OF h] h n show ?thesis by simp
qed

section \<open>Loops over the rows\<close>

lemma visited_start: "visited h base base {}"
  by (simp add: visited_def)

lemma visited_step:
  assumes "visited h base df V" "i < length base" "i \<notin> V" "h i = Inr r"
  shows "visited h base (df[i := r]) (insert i V)"
  using assms by (auto simp: visited_def nth_list_update)

lemma visited_length: "visited h base df V \<Longrightarrow> length df = length base"
  by (simp add: visited_def)

lemma visited_done: "visited h base df V \<Longrightarrow> j \<in> V \<Longrightarrow> j < length base \<Longrightarrow> h j = Inr (df ! j)"
  by (simp add: visited_def)

lemma visited_kept: "visited h base df V \<Longrightarrow> j \<notin> V \<Longrightarrow> j < length base \<Longrightarrow> df ! j = base ! j"
  by (simp add: visited_def)

lemma follows_step:
  "follows body h base \<Longrightarrow> visited h base df V \<Longrightarrow> i \<notin> V \<Longrightarrow> i < length base \<Longrightarrow>
     (case h i of
        Inl e \<Rightarrow> (\<exists>df'. body df i = Inl (e, df'))
      | Inr r \<Rightarrow> body df i = Inr (df[i := r]))"
  unfolding follows_def by blast

lemma raises_early_step:
  "raises_early body h base \<Longrightarrow> visited h base df V \<Longrightarrow> i \<notin> V \<Longrightarrow> i < length base \<Longrightarrow>
     body df i = (case h i of Inl e \<Rightarrow> Inl (e, df) | Inr r \<Rightarrow> Inr (df[i := r]))"
  unfolding raises_early_def by blast

lemma raises_early_follows:
  assumes "raises_early body h base"
  shows "follows body h base"
  unfolding follows_def
proof (intro allI impI)
  fix df V i
  assume "visited h base df V" "i \<notin> V" "i < length base"
  from raises_early_step[OF assms this]
  show "case h i of
          Inl e \<Rightarrow> (\<exists>df'. body df i = Inl (e, df'))
        | Inr r \<Rightarrow> body df i = Inr (df[i := r])"
    by (cases "h i") simp_all
qed

lemma for_rows_visited:
  assumes "follows body h base"
    and "visited h base df V" "distinct rows" "set rows \<inter> V = {}" "\<forall>i\<in>set rows. i < length base"
  shows "(\<forall>df'. for_rows body df rows = Inr df' \<longrightarrow> visited h base df' (V \<union> set rows)) \<and>
         (\<forall>e df'. for_rows body df rows = Inl (e, df') \<longrightarrow> (\<exists>i\<in>set rows. h i = Inl e))"
  using assms(2-)
proof (induction rows arbitrary: df V)
  case Nil
  then show ?case by simp
next
  case (Cons i rows)
  have i: "i \<notin> V" "i < length base" using Cons.prems by auto
  note b = follows_step[OF assms(1) Cons.prems(1) i]
  show ?case
  proof (cases "h i")
    case (Inl e)
    with b obtain d where "body df i = Inl (e, d)" by auto
    with Inl show ?thesis by simp
  next
    case (Inr r)
    with b have s: "body df i = Inr (df[i := r])" by simp
    have v: "visited h base (df[i := r]) (insert i V)"
      using visited_step[OF Cons.prems(1) i(2) i(1) Inr] .
    have "(\<forall>df'. for_rows body (df[i := r]) rows = Inr df' \<longrightarrow>
             visited h base df' (insert i V \<union> set rows)) \<and>
          (\<forall>e df'. for_rows body (df[i := r]) rows = Inl (e, df') \<longrightarrow>
             (\<exists>i\<in>set rows. h i = Inl e))"
      using Cons.prems by (intro Cons.IH[OF v]) auto
    with s show ?thesis by simp
  qed
qed

lemma for_rows_index:
  assumes "follows body h base"
  shows "(\<forall>df'. for_rows body base [0..<length base] = Inr df' \<longrightarrow>
            length df' = length base \<and> (\<forall>j<length base. h j = Inr (df' ! j))) \<and>
         (\<forall>e df'. for_rows body base [0..<length base] = Inl (e, df') \<longrightarrow>
            (\<exists>j<length base. h j = Inl e))"
proof -
  have d: "distinct [0..<length base]" by simp
  have e: "set [0..<length base] \<inter> {} = {}" by simp
  have b: "\<forall>i\<in>set [0..<length base]. i < length base" by simp
  note fv = for_rows_visited[OF assms visited_start d e b]
  have v: "visited h base df' ({} \<union> set [0..<length base]) \<Longrightarrow>
        length df' = length base \<and> (\<forall>j<length base. h j = Inr (df' ! j))" for df'
    by (simp add: visited_def)
  have w: "(\<exists>i\<in>set [0..<length base]. h i = Inl e) \<Longrightarrow> \<exists>j<length base. h j = Inl e" for e
    by auto
  from fv v w show ?thesis by blast
qed

lemma for_rows_total:
  "(\<exists>df'. for_rows body df rows = Inr df') \<or> (\<exists>e df'. for_rows body df rows = Inl (e, df'))"
  by (cases "for_rows body df rows") auto

text \<open>
  When the body raises before it writes, the table left behind by a failed loop holds the
  rows written before the failing one, and the others as they were.
\<close>

lemma for_rows_raised:
  assumes "raises_early body h base"
    and "visited h base df V" "distinct rows" "set rows \<inter> V = {}" "\<forall>i\<in>set rows. i < length base"
    and "for_rows body df rows = Inl (e, df')"
  shows "\<exists>pre i post. rows = pre @ i # post \<and> h i = Inl e \<and> visited h base df' (V \<union> set pre)"
  using assms(2-)
proof (induction rows arbitrary: df V)
  case Nil
  then show ?case by simp
next
  case (Cons i rows)
  have i: "i \<notin> V" "i < length base" using Cons.prems by auto
  note b = raises_early_step[OF assms(1) Cons.prems(1) i]
  show ?case
  proof (cases "h i")
    case (Inl e0)
    with b Cons.prems(5) have "e0 = e" "df' = df" by simp_all
    with Inl Cons.prems(1) have "i # rows = [] @ i # rows \<and> h i = Inl e \<and>
        visited h base df' (V \<union> set [])" by simp
    then show ?thesis by blast
  next
    case (Inr r)
    with b Cons.prems(5) have f: "for_rows body (df[i := r]) rows = Inl (e, df')" by simp
    have v: "visited h base (df[i := r]) (insert i V)"
      using visited_step[OF Cons.prems(1) i(2) i(1) Inr] .
    have "\<exists>pre j post. rows = pre @ j # post \<and> h j = Inl e \<and>
        visited h base df' (insert i V \<union> set pre)"
      using Cons.prems(2-4) by (intro Cons.IH[OF v _ _ _ f]) auto
    then obtain pre j post where p: "rows = pre @ j # post" "h j = Inl e"
      "visited h base df' (insert i V \<union> set pre)" by blast
    have "insert i V \<union> set pre = V \<union> set (i # pre)" by auto
    with p have "i # rows = (i # pre) @ j # post \<and> h j = Inl e \<and>
        visited h base df' (V \<union> set (i # pre))" by simp
    then show ?thesis by blast
  qed
qed

lemma for_rows_stops:
  assumes "raises_early body h base"
    and "visited h base df V" "distinct (pre @ i # post)" "set (pre @ i # post) \<inter> V = {}"
    and "\<forall>j\<in>set (pre @ i # post). j < length base"
    and "\<forall>j\<in>set pre. \<exists>r. h j = Inr r" "h i = Inl e"
  shows "\<exists>df'. for_rows body df (pre @ i # post) = Inl (e, df') \<and> visited h base df' (V \<union> set pre)"
  using assms(2-)
proof (induction pre arbitrary: df V)
  case Nil
  then have i: "i \<notin> V" "i < length base" by auto
  from raises_early_step[OF assms(1) Nil.prems(1) i] Nil.prems(6)
  have "body df i = Inl (e, df)" by simp
  with Nil.prems(1) show ?case by simp
next
  case (Cons k pre)
  have k: "k \<notin> V" "k < length base" using Cons.prems by auto
  from Cons.prems(5) obtain r where r: "h k = Inr r" by auto
  with raises_early_step[OF assms(1) Cons.prems(1) k]
  have s: "body df k = Inr (df[k := r])" by simp
  have v: "visited h base (df[k := r]) (insert k V)"
    using visited_step[OF Cons.prems(1) k(2) k(1) r] .
  have "\<exists>df'. for_rows body (df[k := r]) (pre @ i # post) = Inl (e, df') \<and>
      visited h base df' (insert k V \<union> set pre)"
    using Cons.prems(2-6) by (intro Cons.IH[OF v]) auto
  then obtain df' where d: "for_rows body (df[k := r]) (pre @ i # post) = Inl (e, df')"
    "visited h base df' (insert k V \<union> set pre)" by blast
  have "insert k V \<union> set pre = V \<union> set (k # pre)" by auto
  with d s show ?case by simp
qed

lemma upt_split: "i < n \<Longrightarrow> [0..<n] = [0..<i] @ i # [Suc i..<n]"
proof -
  assume a: "i < n"
  have "[0..<i + (n - i)] = [0..<i] @ [i..<i + (n - i)]" by (rule upt_add_eq_append) simp
  with a have "[0..<n] = [0..<i] @ [i..<n]" by simp
  also from a have "[i..<n] = i # [Suc i..<n]" by (rule upt_conv_Cons)
  finally show ?thesis .
qed

section \<open>Properties of rounding to a double\<close>

lemma round_half_even_bounds:
  "of_int (round_half_even y) \<le> y + 1 / 2 \<and> y - 1 / 2 \<le> of_int (round_half_even y)"
proof -
  define f :: rat where "f = of_int \<lfloor>y\<rfloor>"
  have a: "f \<le> y" "y < f + 1" unfolding f_def by linarith+
  have r: "of_int (round_half_even y) =
      (if y - f < 1 / 2 then f else if 1 / 2 < y - f then f + 1
       else if even \<lfloor>y\<rfloor> then f else f + 1)"
    by (simp add: round_half_even_def Let_def f_def)
  consider "y - f < 1 / 2" | "1 / 2 < y - f" | "y - f = 1 / 2" by linarith
  then show ?thesis
  proof cases
    case 1
    with r have "of_int (round_half_even y) = f" by simp
    with a 1 show ?thesis by linarith
  next
    case 2
    with r have "of_int (round_half_even y) = f + 1" by simp
    with a 2 show ?thesis by linarith
  next
    case 3
    with r have "of_int (round_half_even y) = f \<or> of_int (round_half_even y) = f + 1"
      by simp
    with a 3 show ?thesis by linarith
  qed
qed

lemma round_half_even_le: "y \<le> of_int n \<Longrightarrow> round_half_even y \<le> n"
proof -
  assume a: "y \<le> of_int n"
  show ?thesis
  proof (cases "y = of_int n")
    case True
    then show ?thesis by (simp add: round_half_even_def)
  next
    case False
    with a have "y < of_int n" by simp
    then have "\<lfloor>y\<rfloor> < n" by (simp add: floor_less_iff)
    then show ?thesis by (auto simp: round_half_even_def Let_def)
  qed
qed

lemma round_half_even_nonneg: "0 \<le> y \<Longrightarrow> 0 \<le> round_half_even y"
proof -
  assume "0 \<le> y"
  then have "0 \<le> \<lfloor>y\<rfloor>" by simp
  then show ?thesis by (auto simp: round_half_even_def Let_def)
qed

lemma round_half_even_nonpos: "y \<le> 0 \<Longrightarrow> round_half_even y \<le> 0"
  using round_half_even_le[of y 0] by simp

lemma quantum_pos: "0 < quantum x"
  by (simp add: quantum_def)

lemma round_to_double_nonneg: "0 \<le> x \<Longrightarrow> 0 \<le> round_to_double x"
  using quantum_pos[of x]
  by (simp add: round_to_double_def round_half_even_nonneg)

lemma round_to_double_nonpos: "x \<le> 0 \<Longrightarrow> round_to_double x \<le> 0"
proof -
  assume "x \<le> 0"
  then have "x / quantum x \<le> 0" using quantum_pos[of x] by (simp add: divide_le_0_iff)
  then have "round_half_even (x / quantum x) \<le> 0" by (rule round_half_even_nonpos)
  then have "of_int (round_half_even (x / quantum x)) * quantum x \<le> 0"
    using quantum_pos[of x] by (simp add: mult_le_0_iff)
  then show ?thesis by (simp add: round_to_double_def)
qed

lemma ilog2_le:
  assumes "0 < x" shows "2 powi (ilog2 x) \<le> x"
proof (cases "1 \<le> x")
  case True
  then have p: "0 < \<lfloor>x\<rfloor>" by simp
  then have b: "1 \<le> bitlen \<lfloor>x\<rfloor>" by (simp add: bitlen_alt_def)
  from bitlen_bounds[OF p] have "2 ^ nat (bitlen \<lfloor>x\<rfloor> - 1) \<le> \<lfloor>x\<rfloor>" ..
  then have "(of_int (2 ^ nat (bitlen \<lfloor>x\<rfloor> - 1)) :: rat) \<le> of_int \<lfloor>x\<rfloor>"
    by (simp only: of_int_le_iff)
  also have "\<dots> \<le> x" by simp
  finally have "(2::rat) ^ nat (bitlen \<lfloor>x\<rfloor> - 1) \<le> x" by simp
  moreover have "(2::rat) powi (bitlen \<lfloor>x\<rfloor> - 1) = 2 ^ nat (bitlen \<lfloor>x\<rfloor> - 1)"
    using b by (simp add: power_int_def)
  ultimately show ?thesis using True by (simp add: ilog2_def)
next
  case False
  let ?m = "\<lceil>1 / x\<rceil>"
  let ?k = "bitlen (?m - 1)"
  from False assms have "1 < 1 / x" by simp
  then have m: "1 < ?m" by (simp add: less_ceiling_iff)
  then have p: "0 < ?m - 1" by simp
  from bitlen_bounds[OF p] have "?m - 1 < 2 ^ nat ?k" ..
  then have "?m \<le> 2 ^ nat ?k" by simp
  then have "(of_int ?m :: rat) \<le> of_int (2 ^ nat ?k)" by (simp only: of_int_le_iff)
  moreover have "1 / x \<le> of_int ?m" by (rule le_of_int_ceiling)
  ultimately have "1 / x \<le> of_int (2 ^ nat ?k)" by (rule order_trans[rotated])
  then have "1 / x \<le> 2 ^ nat ?k" by simp
  then have "1 \<le> 2 ^ nat ?k * x" using assms by (simp add: pos_divide_le_eq)
  then have "1 / 2 ^ nat ?k \<le> x" by (simp add: pos_divide_le_eq mult.commute)
  moreover have "(2::rat) powi (- ?k) = 1 / 2 ^ nat ?k"
    using bitlen_nonneg[of "?m - 1"] by (simp add: power_int_minus_divide power_int_def power_one_over)
  ultimately show ?thesis using False by (simp add: ilog2_def)
qed

lemma quantum_le:
  assumes "1 / 2 ^ 1022 \<le> x"
  shows "quantum x * 2 ^ 52 \<le> x"
proof -
  have x: "0 < x" using assms by (rule less_le_trans[rotated]) simp
  let ?e = "max (ilog2 x) (- 1022)"
  have "(2::rat) powi ?e \<le> x"
  proof (cases "ilog2 x \<le> - 1022")
    case True
    then have "?e = - 1022" by simp
    moreover have "(2::rat) powi (- 1022) = 1 / 2 ^ 1022" by (simp add: power_int_minus_divide)
    ultimately show ?thesis using assms by simp
  next
    case False
    then have "?e = ilog2 x" by simp
    then show ?thesis using ilog2_le[OF x] by simp
  qed
  moreover have "quantum x * 2 ^ 52 = 2 powi ?e"
  proof -
    have "(2::rat) powi ?e = 2 powi ((?e - 52) + 52)" by simp
    also have "\<dots> = 2 powi (?e - 52) * 2 powi 52" by (rule power_int_add) simp
    finally show ?thesis using x by (simp add: quantum_def)
  qed
  ultimately show ?thesis by simp
qed

lemma round_to_double_le:
  assumes "1 / 2 ^ 1022 \<le> x"
  shows "round_to_double x \<le> x * (1 + 1 / 2 ^ 53)"
proof -
  have x: "0 < x" using assms by (rule less_le_trans[rotated]) simp
  let ?q = "quantum x"
  have q: "0 < ?q" by (rule quantum_pos)
  have "of_int (round_half_even (x / ?q)) \<le> x / ?q + 1 / 2"
    using round_half_even_bounds by blast
  then have "of_int (round_half_even (x / ?q)) * ?q \<le> (x / ?q + 1 / 2) * ?q"
    using q by (simp only: mult_le_cancel_right_pos)
  also have "\<dots> = x + ?q / 2" using q by (simp add: algebra_simps)
  also have "?q / 2 \<le> x / 2 ^ 53"
  proof -
    have "?q * 2 ^ 52 \<le> x" using assms by (rule quantum_le)
    then show ?thesis by (simp add: field_simps)
  qed
  finally have "of_int (round_half_even (x / ?q)) * ?q \<le> x + x / 2 ^ 53" by simp
  then show ?thesis using x by (simp add: round_to_double_def algebra_simps)
qed

lemma round_to_double_small:
  assumes "0 < x" "x < 1 / 2 ^ 1022"
  shows "round_to_double x \<le> 1 / 2 ^ 1022"
proof -
  have "ilog2 x < - 1022"
  proof (rule ccontr)
    assume "\<not> ilog2 x < - 1022"
    then have "- 1022 \<le> ilog2 x" by simp
    then have "(2::rat) powi (- 1022) \<le> 2 powi (ilog2 x)" by (rule power_int_increasing) simp
    also have "\<dots> \<le> x" using assms(1) by (rule ilog2_le)
    finally have "1 / 2 ^ 1022 \<le> x" by (simp add: power_int_minus_divide)
    with assms(2) show False by simp
  qed
  then have "max (ilog2 \<bar>x\<bar>) (- 1022) = - 1022" using assms(1) by simp
  then have q: "quantum x = 1 / 2 ^ 1074" by (simp add: quantum_def power_int_minus_divide)
  have "x / quantum x \<le> of_int (2 ^ 52)"
  proof -
    have "x * 2 ^ 1074 \<le> 1 / 2 ^ 1022 * 2 ^ 1074" using assms(2) by simp
    also have "\<dots> = (2::rat) ^ 52" by simp
    finally show ?thesis by (simp add: q)
  qed
  then have "round_half_even (x / quantum x) \<le> 2 ^ 52" by (rule round_half_even_le)
  then have "(of_int (round_half_even (x / quantum x)) :: rat) \<le> of_int (2 ^ 52)"
    by (simp only: of_int_le_iff)
  then have "of_int (round_half_even (x / quantum x)) * quantum x \<le> of_int (2 ^ 52) * quantum x"
    using quantum_pos[of x] by (simp only: mult_le_cancel_right_pos)
  also have "\<dots> = 1 / 2 ^ 1022" by (simp add: q)
  finally show ?thesis using assms(1) by (simp add: round_to_double_def)
qed

lemma ilog2_less:
  assumes "0 < x" shows "x < 2 powi (ilog2 x + 1)"
proof (cases "1 \<le> x")
  case True
  then have p: "0 < \<lfloor>x\<rfloor>" by simp
  then have b: "1 \<le> bitlen \<lfloor>x\<rfloor>" by (simp add: bitlen_alt_def)
  from bitlen_bounds[OF p] have "\<lfloor>x\<rfloor> < 2 ^ nat (bitlen \<lfloor>x\<rfloor>)" ..
  then have "\<lfloor>x\<rfloor> + 1 \<le> 2 ^ nat (bitlen \<lfloor>x\<rfloor>)" by simp
  then have "(of_int (\<lfloor>x\<rfloor> + 1) :: rat) \<le> of_int (2 ^ nat (bitlen \<lfloor>x\<rfloor>))"
    by (simp only: of_int_le_iff)
  moreover have "x < of_int (\<lfloor>x\<rfloor> + 1)" by linarith
  ultimately have "x < of_int (2 ^ nat (bitlen \<lfloor>x\<rfloor>))" by (rule less_le_trans[rotated])
  then have "x < 2 ^ nat (bitlen \<lfloor>x\<rfloor>)" by simp
  moreover have "(2::rat) powi (bitlen \<lfloor>x\<rfloor>) = 2 ^ nat (bitlen \<lfloor>x\<rfloor>)"
    using b by (simp add: power_int_def)
  ultimately show ?thesis using True by (simp add: ilog2_def)
next
  case False
  let ?m = "\<lceil>1 / x\<rceil>"
  let ?k = "bitlen (?m - 1)"
  from False assms have "1 < 1 / x" by simp
  then have m: "1 < ?m" by (simp add: less_ceiling_iff)
  then have p: "0 < ?m - 1" by simp
  then have k: "1 \<le> ?k" by (simp add: bitlen_alt_def)
  from bitlen_bounds[OF p] have "2 ^ nat (?k - 1) \<le> ?m - 1" ..
  then have "(of_int (2 ^ nat (?k - 1)) :: rat) \<le> of_int (?m - 1)" by (simp only: of_int_le_iff)
  moreover have "of_int (?m - 1) < 1 / x" by linarith
  ultimately have "of_int (2 ^ nat (?k - 1)) < 1 / x" by (rule le_less_trans)
  then have "2 ^ nat (?k - 1) < 1 / x" by simp
  then have "2 ^ nat (?k - 1) * x < 1" using assms by (simp add: pos_less_divide_eq)
  then have "x < 1 / 2 ^ nat (?k - 1)" by (simp add: pos_less_divide_eq mult.commute)
  moreover have "(2::rat) powi (- ?k + 1) = 1 / 2 ^ nat (?k - 1)"
  proof -
    have "(2::rat) powi (- ?k + 1) = 2 powi (- (?k - 1))" by simp
    also have "\<dots> = 1 / 2 powi (?k - 1)" by (simp only: power_int_minus_divide)
    also have "(2::rat) powi (?k - 1) = 2 ^ nat (?k - 1)" using k by (simp add: power_int_def)
    finally show ?thesis .
  qed
  ultimately show ?thesis using False by (simp add: ilog2_def)
qed

lemma power_int_less_imp_less:
  fixes m n :: int
  assumes "(2::rat) powi m < 2 powi n"
  shows "m < n"
proof (rule ccontr)
  assume "\<not> m < n"
  then have "n \<le> m" by simp
  then have "(2::rat) powi n \<le> 2 powi m" by (rule power_int_increasing) simp
  with assms show False by simp
qed

lemma ilog2_unique:
  assumes "2 powi e \<le> x" "x < 2 powi (e + 1)"
  shows "ilog2 x = e"
proof -
  have "(0::rat) < 2 powi e" by simp
  from this assms(1) have x: "0 < x" by (rule less_le_trans)
  have "2 powi (ilog2 x) \<le> x" using x by (rule ilog2_le)
  from this assms(2) have "(2::rat) powi (ilog2 x) < 2 powi (e + 1)" by (rule le_less_trans)
  then have a: "ilog2 x < e + 1" by (rule power_int_less_imp_less)
  have "x < 2 powi (ilog2 x + 1)" using x by (rule ilog2_less)
  from assms(1) this have "(2::rat) powi e < 2 powi (ilog2 x + 1)" by (rule le_less_trans)
  then have "e < ilog2 x + 1" by (rule power_int_less_imp_less)
  with a show ?thesis by simp
qed

lemma round_half_even_near:
  assumes "\<bar>y - of_int n\<bar> < 1 / 2"
  shows "round_half_even y = n"
proof -
  from round_half_even_bounds[of y]
  have "\<bar>of_int (round_half_even y) - y\<bar> \<le> 1 / 2" by linarith
  with assms have "\<bar>(of_int (round_half_even y) :: rat) - of_int n\<bar> < 1" by linarith
  then have "\<bar>(of_int (round_half_even y - n) :: rat)\<bar> < 1" by simp
  then have "\<bar>round_half_even y - n\<bar> < 1" by (simp only: of_int_abs[symmetric] of_int_less_1_iff)
  then show ?thesis by simp
qed

text \<open>Evaluating a rounding: the binade of \<open>x\<close> and the nearest multiple of its quantum.\<close>

lemma round_to_double_eq:
  assumes "2 powi e \<le> \<bar>x\<bar>" "\<bar>x\<bar> < 2 powi (e + 1)" "- 1022 \<le> e"
    and "\<bar>x / 2 powi (e - 52) - of_int n\<bar> < 1 / 2"
  shows "round_to_double x = of_int n * 2 powi (e - 52)"
proof -
  have "(0::rat) < 2 powi e" by simp
  from this assms(1) have "0 < \<bar>x\<bar>" by (rule less_le_trans)
  then have x: "x \<noteq> 0" by simp
  have "ilog2 \<bar>x\<bar> = e" using assms(1,2) by (rule ilog2_unique)
  with assms(3) have q: "quantum x = 2 powi (e - 52)" by (simp add: quantum_def)
  from assms(4) have "round_half_even (x / 2 powi (e - 52)) = n" by (rule round_half_even_near)
  with x q show ?thesis by (simp add: round_to_double_def)
qed

lemma to_float_finite:
  "\<bar>round_to_double x\<bar> < 2 ^ 1024 \<Longrightarrow> to_float x = Float (round_to_double x)"
  by (simp add: to_float_def Let_def abs_less_iff)

section \<open>Properties of the share computation\<close>

lemma sum_list_bounded:
  fixes f :: "'a \<Rightarrow> rat"
  shows "(\<And>x. x \<in> set xs \<Longrightarrow> f x \<le> c) \<Longrightarrow> sum_list (map f xs) \<le> of_nat (length xs) * c"
proof (induction xs)
  case Nil
  then show ?case by simp
next
  case (Cons a xs)
  have "f a \<le> c" using Cons.prems by simp
  moreover have "sum_list (map f xs) \<le> of_nat (length xs) * c"
    using Cons by simp
  ultimately show ?case by (simp add: algebra_simps)
qed

lemma divide_le_bound:
  fixes a c p :: rat
  shows "0 < p \<Longrightarrow> a \<le> c * p \<Longrightarrow> a / p \<le> c"
  by (simp add: pos_divide_le_eq)

lemma round_to_double_zero: "round_to_double 0 = 0"
  by (simp add: round_to_double_def)

lemma to_float_zero: "to_float 0 = Float 0"
  by (simp add: to_float_def round_to_double_zero)

lemma to_float_Float: "to_float x = Float r \<Longrightarrow> r = round_to_double x"
  by (simp add: to_float_def Let_def split: if_splits)

lemma round_to_double_tiny:
  assumes "0 \<le> x" "x < 1 / 2 ^ 1022"
  shows "round_to_double x \<le> 1 / 2 ^ 1022"
proof (cases "x = 0")
  case True
  then show ?thesis by (simp add: round_to_double_zero)
next
  case False
  with assms(1) have "0 < x" by simp
  then show ?thesis using assms(2) by (rule round_to_double_small)
qed

lemma round_to_double_bounded:
  assumes "0 \<le> x" "x \<le> c" "1 \<le> c"
  shows "round_to_double x \<le> c * (1 + 1 / 2 ^ 53)"
proof (cases "1 / 2 ^ 1022 \<le> x")
  case True
  then have "round_to_double x \<le> x * (1 + 1 / 2 ^ 53)" by (rule round_to_double_le)
  also have "\<dots> \<le> c * (1 + 1 / 2 ^ 53)" using assms(2) by (rule mult_right_mono) simp
  finally show ?thesis .
next
  case False
  then have "x < 1 / 2 ^ 1022" by simp
  with assms(1) have "round_to_double x \<le> 1 / 2 ^ 1022" by (rule round_to_double_tiny)
  also have "\<dots> \<le> (1::rat)" by simp
  also have "\<dots> \<le> c" by (rule assms(3))
  also have "\<dots> \<le> c * (1 + 1 / 2 ^ 53)" using assms(3) by (simp add: algebra_simps)
  finally show ?thesis .
qed

text \<open>
  The floor of a rounded quotient, times the divisor, exceeds the dividend by at most one
  rounding error.
\<close>

lemma floor_rounded_times_price:
  assumes p: "0 < p" and s: "0 \<le> s"
  shows "of_int \<lfloor>round_to_double (s / p)\<rfloor> * p \<le> s * (1 + 1 / 2 ^ 53)"
proof (cases "1 / 2 ^ 1022 \<le> s / p")
  case True
  have "of_int \<lfloor>round_to_double (s / p)\<rfloor> \<le> round_to_double (s / p)" by (rule of_int_floor_le)
  also have "\<dots> \<le> s / p * (1 + 1 / 2 ^ 53)" using True by (rule round_to_double_le)
  finally have "of_int \<lfloor>round_to_double (s / p)\<rfloor> * p \<le> s / p * (1 + 1 / 2 ^ 53) * p"
    using p by (simp only: mult_le_cancel_right_pos)
  also have "\<dots> = s * (1 + 1 / 2 ^ 53)" using p by simp
  finally show ?thesis .
next
  case False
  then have "s / p < 1 / 2 ^ 1022" by simp
  moreover have "0 \<le> s / p" using p s by simp
  ultimately have "round_to_double (s / p) \<le> 1 / 2 ^ 1022" by (rule round_to_double_tiny[rotated])
  also have "\<dots> < (of_int 1 :: rat)" by simp
  finally have "\<lfloor>round_to_double (s / p)\<rfloor> < 1" by (simp only: floor_less_iff)
  then have "(of_int \<lfloor>round_to_double (s / p)\<rfloor> :: rat) \<le> 0" by simp
  then have "of_int \<lfloor>round_to_double (s / p)\<rfloor> * p \<le> 0"
    using p by (simp add: mult_le_0_iff)
  also have "\<dots> \<le> s * (1 + 1 / 2 ^ 53)" using s by simp
  finally show ?thesis .
qed

lemma shares_row_raises_early: "raises_early (shares_row ps) (shares_result ps base) base"
  unfolding raises_early_def
proof (intro allI impI)
  fix df V i
  assume "visited (shares_result ps base) base df V" "i \<notin> V" "i < length base"
  then have "df ! i = base ! i" by (simp add: visited_def)
  then show "shares_row ps df i =
     (case shares_result ps base i of Inl e \<Rightarrow> Inl (e, df) | Inr r \<Rightarrow> Inr (df[i := r]))"
    by (simp add: shares_row_def shares_result_def split: sum.splits)
qed

lemmas shares_row_follows = raises_early_follows[OF shares_row_raises_early]

lemmas shares_loop = for_rows_index[OF shares_row_follows]

lemma shares_of_zero: "shares_of ps (PyNum 0) = Inl ZeroDivisionError"
  by (simp add: shares_of_def to_float_zero)

lemma shares_of_Inr:
  assumes "shares_of ps (PyNum p) = Inr k"
  shows "\<exists>s. ps = Float s \<and> round_to_double p \<noteq> 0 \<and>
     k = \<lfloor>round_to_double (s / round_to_double p)\<rfloor>"
proof (cases "to_float p")
  case (Float r)
  then have r: "r = round_to_double p" by (rule to_float_Float)
  from assms Float have d: "(case float_truediv ps (Float r) of Inl e \<Rightarrow> Inl e | Inr q \<Rightarrow> math_floor q) = Inr k"
    by (simp add: shares_of_def)
  then have nz: "r \<noteq> 0" by (cases "r = 0") simp_all
  show ?thesis
  proof (cases ps)
    case (Float s)
    with d nz have m: "math_floor (to_float (s / r)) = Inr k" by simp
    then obtain q where q: "to_float (s / r) = Float q" by (cases "to_float (s / r)") simp_all
    then have "q = round_to_double (s / r)" by (rule to_float_Float)
    with m q have "k = \<lfloor>round_to_double (s / r)\<rfloor>" by simp
    with Float nz r show ?thesis by simp
  next
    case PosInf
    with d nz show ?thesis by (simp split: if_splits)
  next
    case NegInf
    with d nz show ?thesis by (simp split: if_splits)
  next
    case FloatNaN
    with d nz show ?thesis by simp
  qed
next
  case PosInf
  with assms show ?thesis by (simp add: shares_of_def)
next
  case NegInf
  with assms show ?thesis by (simp add: shares_of_def)
next
  case FloatNaN
  with assms show ?thesis by (simp add: shares_of_def)
qed

lemma shares_of_positive:
  assumes p: "to_float p = Float p" "0 < p" and s: "0 \<le> s"
    and q: "s / p \<le> 2 ^ 1023 * (1 + 1 / 2 ^ 53)"
  shows "shares_of (Float s) (PyNum p) = Inr \<lfloor>round_to_double (s / p)\<rfloor>"
proof -
  have x: "0 \<le> s / p" using p s by simp
  then have "0 \<le> round_to_double (s / p)" by (rule round_to_double_nonneg)
  moreover have "round_to_double (s / p) \<le> 2 ^ 1023 * (1 + 1 / 2 ^ 53) * (1 + 1 / 2 ^ 53)"
    using x q by (rule round_to_double_bounded) simp
  moreover have "(2::rat) ^ 1023 * (1 + 1 / 2 ^ 53) * (1 + 1 / 2 ^ 53) < 2 ^ 1024" by simp
  ultimately have "\<bar>round_to_double (s / p)\<bar> < 2 ^ 1024" by simp
  then have "to_float (s / p) = Float (round_to_double (s / p))" by (rule to_float_finite)
  with p show ?thesis by (simp add: shares_of_def)
qed

text \<open>Rounding is symmetric about zero.\<close>

lemma round_half_even_minus: "round_half_even (- y) = - round_half_even y"
proof -
  define f where "f = \<lfloor>y\<rfloor>"
  define d where "d = y - of_int f"
  have y: "y = of_int f + d" by (simp add: d_def)
  have d0: "0 \<le> d" "d < 1" unfolding d_def f_def by linarith+
  consider "d < 1 / 2" | "1 / 2 < d" | "d = 1 / 2" by linarith
  then show ?thesis
  proof cases
    case 1
    with d0 have b: "\<bar>y - of_int f\<bar> < 1 / 2" "\<bar>- y - of_int (- f)\<bar> < 1 / 2"
      by (simp_all add: y)
    from b(1) have "round_half_even y = f" by (rule round_half_even_near)
    moreover from b(2) have "round_half_even (- y) = - f" by (rule round_half_even_near)
    ultimately show ?thesis by simp
  next
    case 2
    with d0 have b: "\<bar>y - of_int (f + 1)\<bar> < 1 / 2" "\<bar>- y - of_int (- (f + 1))\<bar> < 1 / 2"
      by (simp_all add: y)
    from b(1) have "round_half_even y = f + 1" by (rule round_half_even_near)
    moreover from b(2) have "round_half_even (- y) = - (f + 1)" by (rule round_half_even_near)
    ultimately show ?thesis by simp
  next
    case 3
    have "y - of_int \<lfloor>y\<rfloor> = 1 / 2" using 3 by (simp add: d_def f_def)
    then have "round_half_even y = (if even \<lfloor>y\<rfloor> then \<lfloor>y\<rfloor> else \<lfloor>y\<rfloor> + 1)"
      by (simp add: round_half_even_def Let_def)
    then have a: "round_half_even y = (if even f then f else f + 1)"
      by (simp only: f_def)
    have m: "\<lfloor>- y\<rfloor> = - f - 1"
      by (rule floor_unique) (simp_all add: y 3)
    then have "- y - of_int \<lfloor>- y\<rfloor> = 1 / 2" by (simp add: y 3)
    with m have "round_half_even (- y) = (if even (- f - 1) then - f - 1 else - f)"
      by (simp add: round_half_even_def Let_def)
    with a show ?thesis by simp
  qed
qed

lemma round_to_double_minus: "round_to_double (- x) = - round_to_double x"
proof -
  have "quantum (- x) = quantum x" by (simp add: quantum_def)
  moreover have "- x / quantum x = - (x / quantum x)" by simp
  ultimately show ?thesis
    by (simp add: round_to_double_def round_half_even_minus)
qed

lemma round_to_double_abs_bounded:
  assumes "\<bar>x\<bar> \<le> c" "1 \<le> c"
  shows "\<bar>round_to_double x\<bar> \<le> c * (1 + 1 / 2 ^ 53)"
proof (cases "0 \<le> x")
  case True
  then have "0 \<le> round_to_double x" by (rule round_to_double_nonneg)
  moreover from True assms(1) have "x \<le> c" by simp
  with True have "round_to_double x \<le> c * (1 + 1 / 2 ^ 53)"
    using assms(2) by (rule round_to_double_bounded)
  ultimately show ?thesis by simp
next
  case False
  then have n: "0 \<le> - x" by simp
  then have "0 \<le> round_to_double (- x)" by (rule round_to_double_nonneg)
  moreover from False assms(1) have "- x \<le> c" by simp
  with n have "round_to_double (- x) \<le> c * (1 + 1 / 2 ^ 53)"
    using assms(2) by (rule round_to_double_bounded)
  ultimately show ?thesis by (simp add: round_to_double_minus)
qed

lemma shares_of_nonzero:
  assumes p: "to_float p = Float p" "p \<noteq> 0" and s: "0 \<le> s"
    and q: "s / \<bar>p\<bar> \<le> 2 ^ 1023 * (1 + 1 / 2 ^ 53)"
  shows "shares_of (Float s) (PyNum p) = Inr \<lfloor>round_to_double (s / p)\<rfloor>"
proof -
  have e: "\<bar>s / p\<bar> = s / \<bar>p\<bar>" using s by simp
  have "\<bar>s / p\<bar> \<le> 2 ^ 1023 * (1 + 1 / 2 ^ 53)" unfolding e by (rule q)
  then have "\<bar>round_to_double (s / p)\<bar> \<le> 2 ^ 1023 * (1 + 1 / 2 ^ 53) * (1 + 1 / 2 ^ 53)"
    by (rule round_to_double_abs_bounded) simp
  moreover have "(2::rat) ^ 1023 * (1 + 1 / 2 ^ 53) * (1 + 1 / 2 ^ 53) < 2 ^ 1024" by simp
  ultimately have "\<bar>round_to_double (s / p)\<bar> < 2 ^ 1024" by (rule le_less_trans)
  then have "to_float (s / p) = Float (round_to_double (s / p))" by (rule to_float_finite)
  with p show ?thesis by (simp add: shares_of_def)
qed

text \<open>
  The position size of a budget \<open>B\<close> over \<open>N\<close> rows, when \<open>B / N\<close> lies in the range of the
  normal doubles.
\<close>

lemma position_size_rounded:
  assumes ne: "df \<noteq> []"
    and lo: "1 / 2 ^ 1022 \<le> budget / of_nat (length df)"
    and hi: "budget / of_nat (length df) \<le> 2 ^ 1023"
  shows "float_truediv (Float budget) (Float (of_nat (length df))) =
           Inr (Float (round_to_double (budget / of_nat (length df))))"
    and "0 \<le> round_to_double (budget / of_nat (length df))"
    and "round_to_double (budget / of_nat (length df)) \<le>
           budget / of_nat (length df) * (1 + 1 / 2 ^ 53)"
proof -
  let ?x = "budget / of_nat (length df)"
  let ?s = "round_to_double ?x"
  let ?u = "1 + 1 / 2 ^ 53 :: rat"
  have n: "(of_nat (length df) :: rat) \<noteq> 0" using ne by simp
  have x0: "0 \<le> ?x" using lo by (rule order_trans[rotated]) simp
  show s0: "0 \<le> ?s" using x0 by (rule round_to_double_nonneg)
  show s1: "?s \<le> ?x * ?u" using lo by (rule round_to_double_le)
  have "?x * ?u \<le> 2 ^ 1023 * ?u" using hi by (rule mult_right_mono) simp
  also have "\<dots> < 2 ^ 1024" by simp
  finally have "?x * ?u < 2 ^ 1024" .
  with s0 s1 have "\<bar>?s\<bar> < 2 ^ 1024" by simp
  then have "to_float ?x = Float ?s" by (rule to_float_finite)
  with n show "float_truediv (Float budget) (Float (of_nat (length df))) = Inr (Float ?s)"
    by simp
qed

text \<open>
  The share computation returns when no price is zero and nothing leaves the range of the
  doubles.
\<close>

lemma calculate_shares_returns:
  assumes f: "py_float portfolio_size = Some (Float budget)" and ne: "df \<noteq> []"
    and lo: "1 / 2 ^ 1022 \<le> budget / of_nat (length df)"
    and hi: "budget / of_nat (length df) \<le> 2 ^ 1023"
    and pr: "\<forall>r\<in>set df. \<exists>p. Price r = PyNum p \<and> p \<noteq> 0 \<and> to_float p = Float p \<and>
               budget / of_nat (length df) \<le> 2 ^ 1023 * \<bar>p\<bar>"
  shows "\<exists>df'. calculate_shares py_float portfolio_size df = Inr df' \<and> length df' = length df \<and>
     (\<forall>i<length df. df' ! i = (df ! i)\<lparr>Number_of_Shares_to_Buy :=
         Val (PyNum (of_int \<lfloor>round_to_double
           (round_to_double (budget / of_nat (length df)) / number (Price (df ! i)))\<rfloor>))\<rparr>)"
proof -
  let ?x = "budget / of_nat (length df)"
  let ?s = "round_to_double ?x"
  let ?u = "1 + 1 / 2 ^ 53 :: rat"
  note ps = position_size_rounded(1)[OF ne lo hi]
  note s0 = position_size_rounded(2)[OF ne lo hi]
  note s1 = position_size_rounded(3)[OF ne lo hi]
  have h: "shares_result (Float ?s) df j = Inr ((df ! j)\<lparr>Number_of_Shares_to_Buy :=
         Val (PyNum (of_int \<lfloor>round_to_double (?s / number (Price (df ! j)))\<rfloor>))\<rparr>)"
    if "j < length df" for j
  proof -
    from that pr obtain p where p: "Price (df ! j) = PyNum p" "p \<noteq> 0" "to_float p = Float p"
      "?x \<le> 2 ^ 1023 * \<bar>p\<bar>" by (meson nth_mem)
    have a: "0 < \<bar>p\<bar>" using p(2) by simp
    then have a0: "0 \<le> \<bar>p\<bar>" by simp
    have "?s / \<bar>p\<bar> \<le> ?x * ?u / \<bar>p\<bar>" using s1 a0 by (rule divide_right_mono)
    also have "\<dots> = ?x / \<bar>p\<bar> * ?u" by simp
    also have "\<dots> \<le> 2 ^ 1023 * ?u"
    proof (rule mult_right_mono)
      show "?x / \<bar>p\<bar> \<le> 2 ^ 1023" using a p(4) by (rule divide_le_bound)
    qed simp
    finally have "?s / \<bar>p\<bar> \<le> 2 ^ 1023 * ?u" .
    with p(3,2) s0 have "shares_of (Float ?s) (PyNum p) = Inr \<lfloor>round_to_double (?s / p)\<rfloor>"
      by (rule shares_of_nonzero)
    with p(1) show ?thesis by (simp add: shares_result_def)
  qed
  note l = shares_loop[of "Float ?s" df]
  have "\<not> (\<exists>e d. for_rows (shares_row (Float ?s)) df [0..<length df] = Inl (e, d))"
  proof
    assume "\<exists>e d. for_rows (shares_row (Float ?s)) df [0..<length df] = Inl (e, d)"
    then obtain e d where "for_rows (shares_row (Float ?s)) df [0..<length df] = Inl (e, d)"
      by blast
    with l obtain j where "j < length df" "shares_result (Float ?s) df j = Inl e" by blast
    with h[of j] show False by simp
  qed
  then obtain df' where d: "for_rows (shares_row (Float ?s)) df [0..<length df] = Inr df'"
    using for_rows_total by blast
  with l have ld: "length df' = length df"
    and r: "\<forall>j<length df. shares_result (Float ?s) df j = Inr (df' ! j)"
    by blast+
  have rows: "\<forall>j<length df. df' ! j = (df ! j)\<lparr>Number_of_Shares_to_Buy :=
         Val (PyNum (of_int \<lfloor>round_to_double (?s / number (Price (df ! j)))\<rfloor>))\<rparr>"
  proof (intro allI impI)
    fix j assume j: "j < length df"
    with r have a: "shares_result (Float ?s) df j = Inr (df' ! j)" by blast
    from a h[OF j] have "Inr (df' ! j) = (Inr ((df ! j)\<lparr>Number_of_Shares_to_Buy :=
         Val (PyNum (of_int \<lfloor>round_to_double (?s / number (Price (df ! j)))\<rfloor>))\<rparr>) :: error + row)"
      by (rule trans[OF sym])
    then show "df' ! j = (df ! j)\<lparr>Number_of_Shares_to_Buy :=
         Val (PyNum (of_int \<lfloor>round_to_double (?s / number (Price (df ! j)))\<rfloor>))\<rparr>"
      by (rule Inr_inject)
  qed
  have c: "calculate_shares py_float portfolio_size df = Inr df'"
    using f ps d by (simp add: calculate_shares_def)
  with ld rows show ?thesis by blast
qed

text \<open>
  In the range of the normal doubles rounding is also bounded from below, so a quotient
  below \<open>2 ^ 50\<close> that is rounded twice stays within 1 of the exact quotient, and its floor
  within 1 of the exact floor.
\<close>

lemma round_to_double_ge:
  assumes "1 / 2 ^ 1022 \<le> x"
  shows "x * (1 - 1 / 2 ^ 53) \<le> round_to_double x"
proof -
  have x: "0 < x" using assms by (rule less_le_trans[rotated]) simp
  let ?q = "quantum x"
  have q: "0 < ?q" by (rule quantum_pos)
  have "?q / 2 \<le> x / 2 ^ 53"
  proof -
    have "?q * 2 ^ 52 \<le> x" using assms by (rule quantum_le)
    then show ?thesis by (simp add: field_simps)
  qed
  then have "x - x / 2 ^ 53 \<le> x - ?q / 2" by simp
  also have "\<dots> = (x / ?q - 1 / 2) * ?q" using q by (simp add: algebra_simps)
  also have "\<dots> \<le> of_int (round_half_even (x / ?q)) * ?q"
  proof -
    have "x / ?q - 1 / 2 \<le> of_int (round_half_even (x / ?q))"
      using round_half_even_bounds by blast
    then show ?thesis using q by (simp only: mult_le_cancel_right_pos)
  qed
  finally have "x - x / 2 ^ 53 \<le> of_int (round_half_even (x / ?q)) * ?q" .
  then show ?thesis using x by (simp add: round_to_double_def algebra_simps)
qed

lemma floor_close:
  fixes a b :: rat
  assumes "\<bar>a - b\<bar> < 1"
  shows "\<bar>\<lfloor>a\<rfloor> - \<lfloor>b\<rfloor>\<bar> \<le> 1"
proof -
  from assms have l: "a \<le> b + 1" "b \<le> a + 1" by linarith+
  from l(1) have "\<lfloor>a\<rfloor> \<le> \<lfloor>b + 1\<rfloor>" by (rule floor_mono)
  moreover from l(2) have "\<lfloor>b\<rfloor> \<le> \<lfloor>a + 1\<rfloor>" by (rule floor_mono)
  ultimately show ?thesis by simp
qed

lemma half_less:
  fixes x t :: rat
  shows "x * (1 / 2) < t \<Longrightarrow> x < 2 * t"
  by simp

lemma twice_rounded_close:
  fixes x q u c :: rat
  assumes x: "0 \<le> x" "x \<le> c" and u: "0 \<le> u"
    and lo: "x * ((1 - u) * (1 - u)) \<le> q" and hi: "q \<le> x * ((1 + u) * (1 + u))"
    and c: "c * (2 * u + u * u) < 1"
  shows "\<bar>q - x\<bar> < 1"
proof -
  have "0 \<le> 2 * u + u * u" using u by simp
  with x(2) have "x * (2 * u + u * u) \<le> c * (2 * u + u * u)" by (rule mult_right_mono)
  with c have b: "x * (2 * u + u * u) < 1" by simp
  have n: "0 \<le> x * (u * u)" using x(1) by simp
  from hi have "q - x \<le> x * (2 * u + u * u)" by (simp add: algebra_simps)
  moreover from lo have "x - q \<le> x * (2 * u) - x * (u * u)" by (simp add: algebra_simps)
  then have "x - q \<le> x * (2 * u + u * u)" using n by (simp add: algebra_simps)
  ultimately show ?thesis using b by linarith
qed

lemma rounded_floor_close:
  assumes p: "0 < p" and lo: "1 / 2 ^ 1022 \<le> x0" and hi: "x0 / p \<le> 2 ^ 50"
  shows "\<bar>\<lfloor>round_to_double (round_to_double x0 / p)\<rfloor> - \<lfloor>x0 / p\<rfloor>\<bar> \<le> 1"
proof -
  let ?s = "round_to_double x0"
  let ?u = "1 / 2 ^ 53 :: rat"
  let ?x = "x0 / p" and ?y = "?s / p"
  let ?q = "round_to_double ?y"
  have p0: "0 \<le> p" using p by simp
  have x0: "0 \<le> x0" using lo by (rule order_trans[rotated]) simp
  then have x: "0 \<le> ?x" using p by simp
  have s0: "0 \<le> ?s" using x0 by (rule round_to_double_nonneg)
  then have y: "0 \<le> ?y" using p by simp
  have "?s \<le> x0 * (1 + ?u)" using lo by (rule round_to_double_le)
  then have "?y \<le> x0 * (1 + ?u) / p" using p0 by (rule divide_right_mono)
  then have y1: "?y \<le> ?x * (1 + ?u)" by simp
  have "x0 * (1 - ?u) \<le> ?s" using lo by (rule round_to_double_ge)
  then have "x0 * (1 - ?u) / p \<le> ?y" using p0 by (rule divide_right_mono)
  then have y2: "?x * (1 - ?u) \<le> ?y" by simp
  have "\<bar>?q - ?x\<bar> < 1"
  proof (cases "1 / 2 ^ 1022 \<le> ?y")
    case True
    have "?q \<le> ?y * (1 + ?u)" using True by (rule round_to_double_le)
    also have "\<dots> \<le> ?x * (1 + ?u) * (1 + ?u)" using y1 by (rule mult_right_mono) simp
    finally have h: "?q \<le> ?x * ((1 + ?u) * (1 + ?u))" by (simp only: mult.assoc)
    have "?x * (1 - ?u) * (1 - ?u) \<le> ?y * (1 - ?u)" using y2 by (rule mult_right_mono) simp
    also have "\<dots> \<le> ?q" using True by (rule round_to_double_ge)
    finally have l: "?x * ((1 - ?u) * (1 - ?u)) \<le> ?q" by (simp only: mult.assoc)
    have u: "0 \<le> ?u" by simp
    have c: "(2::rat) ^ 50 * (2 * ?u + ?u * ?u) < 1" by simp
    from x hi u l h c show ?thesis by (rule twice_rounded_close)
  next
    case False
    then have t: "?y < 1 / 2 ^ 1022" by simp
    with y have "?q \<le> 1 / 2 ^ 1022" by (rule round_to_double_tiny)
    moreover have "0 \<le> ?q" using y by (rule round_to_double_nonneg)
    moreover have "?x < 1"
    proof -
      from y2 t have "?x * (1 - ?u) < 1 / 2 ^ 1022" by (rule le_less_trans)
      moreover have "?x * (1 / 2) \<le> ?x * (1 - ?u)" using x by (intro mult_left_mono) simp_all
      ultimately have "?x * (1 / 2) < 1 / 2 ^ 1022" by (rule le_less_trans[rotated])
      then have "?x < 2 * (1 / 2 ^ 1022)" by (rule half_less)
      also have "\<dots> < (1::rat)" by simp
      finally show ?thesis .
    qed
    moreover have "(1::rat) / 2 ^ 1022 < 1" by simp
    ultimately show ?thesis using x by linarith
  qed
  then show ?thesis by (rule floor_close)
qed

text \<open>Doubles and strings used in the examples.\<close>

lemma round_to_double_2: "round_to_double 2 = 2"
  using round_to_double_eq[of 1 2 "2 ^ 52"] by (simp add: power_int_minus_divide)

lemma round_to_double_50: "round_to_double 50 = 50"
  using round_to_double_eq[of 5 50 "50 * 2 ^ 47"] by (simp add: power_int_minus_divide)

lemma round_to_double_100: "round_to_double 100 = 100"
  using round_to_double_eq[of 6 100 "100 * 2 ^ 46"] by (simp add: power_int_minus_divide)

lemma round_to_double_200: "round_to_double 200 = 200"
  using round_to_double_eq[of 7 200 "200 * 2 ^ 45"] by (simp add: power_int_minus_divide)

lemma round_to_double_1700: "round_to_double 1700 = 1700"
  using round_to_double_eq[of 10 1700 "1700 * 2 ^ 42"] by (simp add: power_int_minus_divide)

lemma round_to_double_10000: "round_to_double 10000 = 10000"
  using round_to_double_eq[of 13 10000 "10000 * 2 ^ 39"] by (simp add: power_int_minus_divide)

lemma round_to_double_half: "round_to_double (1 / 2) = 1 / 2"
  using round_to_double_eq[of "- 1" "1 / 2" "2 ^ 52"] by (simp add: power_int_minus_divide)

lemma round_to_double_minus_3: "round_to_double (- 3) = - 3"
  using round_to_double_eq[of 1 "- 3" "- 3 * 2 ^ 51"] by (simp add: power_int_minus_divide)

lemma round_to_double_minus_5: "round_to_double (- 5) = - 5"
  using round_to_double_eq[of 2 "- 5" "- 5 * 2 ^ 50"] by (simp add: power_int_minus_divide)

lemma round_to_double_272: "round_to_double (272 / 100) = 6124895493223875 / 2251799813685248"
  using round_to_double_eq[of 1 "272 / 100" 6124895493223875] by (simp add: power_int_minus_divide)

lemma round_to_double_cheap:
  "round_to_double (6124895493223875 / 2251799813685248) = 6124895493223875 / 2251799813685248"
  using round_to_double_eq[of 1 "6124895493223875 / 2251799813685248" 6124895493223875]
  by (simp add: power_int_minus_divide)

lemma round_to_double_625:
  "round_to_double (1700 / (6124895493223875 / 2251799813685248)) = 625"
  using round_to_double_eq[of 9 "1700 / (6124895493223875 / 2251799813685248)" 5497558138880000]
  by (simp add: power_int_minus_divide)

lemma round_to_double_third:
  "round_to_double (100 / (- 3)) = - (4691249611844267 / 140737488355328)"
  using round_to_double_eq[of 5 "100 / (- 3)" "- 4691249611844267"]
  by (simp add: power_int_minus_divide)

lemmas parse_float = float_of_string_def strip_def is_space_def lower_def decimal_def
  exponent_def digit_def digits_value_def Let_def

lemma float_of_string_10000: "float_of_string ''10000'' = Some (Float 10000)"
  by (simp add: parse_float to_float_finite round_to_double_10000)

lemma float_of_string_1700: "float_of_string ''1700'' = Some (Float 1700)"
  by (simp add: parse_float to_float_finite round_to_double_1700)

lemma float_of_string_100: "float_of_string ''100'' = Some (Float 100)"
  by (simp add: parse_float to_float_finite round_to_double_100)

lemma float_of_string_minus_5: "float_of_string ''-5'' = Some (Float (- 5))"
  by (simp add: parse_float to_float_finite round_to_double_minus_5)

lemma float_of_string_abc: "float_of_string ''abc'' = None"
  by (simp add: parse_float)

lemma float_of_string_def_entry: "float_of_string ''def'' = None"
  by (simp add: parse_float)

text \<open>
  Claim C3 gives every row \<open>\<lfloor>(B / N) / price\<rfloor>\<close> shares and bounds their cost by the budget
  \<open>B\<close>. The notebook divides in double precision and takes the floor of the rounded
  quotient. With a budget of 1700 and one symbol priced at 2.72, that is at the double
  nearest to it, the exact quotient lies just below 625 and its floor is 624; the rounded
  quotient is 625, so the row gets 625 shares, and they cost more than 1700.
\<close>

theorem rounded_quotient_counterexample:
  "calculate_shares float_of_string ''1700'' [cheap_row] =
     Inr [cheap_row\<lparr>Number_of_Shares_to_Buy := Val (PyNum 625)\<rparr>] \<and>
   \<lfloor>1700 / of_nat (length [cheap_row]) / number (Price cheap_row)\<rfloor> = 624 \<and>
   1700 < allocated_value [cheap_row\<lparr>Number_of_Shares_to_Buy := Val (PyNum 625)\<rparr>]"
proof (intro conjI)
  let ?p = "6124895493223875 / 2251799813685248 :: rat"
  have pc: "Price cheap_row = PyNum ?p"
    unfolding cheap_row_def round_to_double_272 by simp
  have "to_float ?p = Float ?p" by (simp add: to_float_finite round_to_double_cheap)
  moreover have "0 < ?p" by simp
  moreover have "(0::rat) \<le> 1700" by simp
  moreover have "1700 / ?p \<le> 2 ^ 1023 * (1 + 1 / 2 ^ 53)" by simp
  ultimately have "shares_of (Float 1700) (PyNum ?p) = Inr \<lfloor>round_to_double (1700 / ?p)\<rfloor>"
    by (rule shares_of_positive)
  then have "shares_of (Float 1700) (PyNum ?p) = Inr \<lfloor>625 :: rat\<rfloor>"
    by (simp only: round_to_double_625)
  then have so: "shares_of (Float 1700) (Price cheap_row) = Inr 625"
    by (simp add: pc)
  show "calculate_shares float_of_string ''1700'' [cheap_row] =
     Inr [cheap_row\<lparr>Number_of_Shares_to_Buy := Val (PyNum 625)\<rparr>]"
    by (simp add: calculate_shares_def float_of_string_1700 to_float_finite round_to_double_1700
        shares_row_def so)
  show "\<lfloor>1700 / of_nat (length [cheap_row]) / number (Price cheap_row)\<rfloor> = 624"
    by (rule floor_unique) (simp_all add: pc)
  show "1700 < allocated_value [cheap_row\<lparr>Number_of_Shares_to_Buy := Val (PyNum 625)\<rparr>]"
    by (simp add: allocated_value_def pc)
qed

text \<open>
  Claim C3, as amended. Let the budget string parse to a finite number \<open>B\<close>, let the table
  have \<open>N > 0\<close> rows whose prices are positive doubles, and let \<open>B / N\<close> and every
  \<open>(B / N) / price\<close> stay in the range of the normal doubles (\<open>B / N\<close> from \<open>1 / 2 ^ 1022\<close> to
  \<open>2 ^ 1023\<close>, every quotient at most \<open>2 ^ 1023\<close>). Then the share computation returns, every
  row gets the floor of the twice rounded quotient, \<open>\<lfloor>fl (fl (B / N) / price)\<rfloor>\<close> with \<open>fl\<close> the
  rounding to the nearest double, nothing else in the row changes, this count differs
  from \<open>\<lfloor>(B / N) / price\<rfloor>\<close> by at most 1 when the quotient is at most \<open>2 ^ 50\<close>, and the
  shares times their prices sum to at most \<open>B * (1 + 1 / 2 ^ 53) ^ 2\<close>. For a budget of
  10000 and 50 rows priced 100, each row gets 2 shares and the total is 10000 (the
  witness).
\<close>

theorem calculate_shares_rounded:
  assumes f: "py_float portfolio_size = Some (Float budget)" and ne: "df \<noteq> []"
    and lo: "1 / 2 ^ 1022 \<le> budget / of_nat (length df)"
    and hi: "budget / of_nat (length df) \<le> 2 ^ 1023"
    and pr: "\<forall>r\<in>set df. \<exists>p. Price r = PyNum p \<and> 0 < p \<and> to_float p = Float p \<and>
               budget / of_nat (length df) \<le> 2 ^ 1023 * p"
  shows "\<exists>df'. calculate_shares py_float portfolio_size df = Inr df' \<and> length df' = length df \<and>
     (\<forall>i<length df. df' ! i = (df ! i)\<lparr>Number_of_Shares_to_Buy :=
         Val (PyNum (of_int \<lfloor>round_to_double
           (round_to_double (budget / of_nat (length df)) / number (Price (df ! i)))\<rfloor>))\<rparr>) \<and>
     (\<forall>i<length df. budget / of_nat (length df) / number (Price (df ! i)) \<le> 2 ^ 50 \<longrightarrow>
         \<bar>\<lfloor>round_to_double
             (round_to_double (budget / of_nat (length df)) / number (Price (df ! i)))\<rfloor> -
          \<lfloor>budget / of_nat (length df) / number (Price (df ! i))\<rfloor>\<bar> \<le> 1) \<and>
     allocated_value df' \<le> budget * (1 + rounding_unit) ^ 2"
proof -
  let ?x = "budget / of_nat (length df)"
  let ?s = "round_to_double ?x"
  let ?u = "1 + 1 / 2 ^ 53 :: rat"
  have n: "(of_nat (length df) :: rat) \<noteq> 0" using ne by simp
  note s0 = position_size_rounded(2)[OF ne lo hi]
  note s1 = position_size_rounded(3)[OF ne lo hi]
  have pr': "\<forall>r\<in>set df. \<exists>p. Price r = PyNum p \<and> p \<noteq> 0 \<and> to_float p = Float p \<and>
               budget / of_nat (length df) \<le> 2 ^ 1023 * \<bar>p\<bar>"
  proof
    fix r assume "r \<in> set df"
    with pr obtain p where p: "Price r = PyNum p" "0 < p" "to_float p = Float p"
      "?x \<le> 2 ^ 1023 * p" by blast
    from p(2) have "p \<noteq> 0" "\<bar>p\<bar> = p" by simp_all
    with p show "\<exists>p. Price r = PyNum p \<and> p \<noteq> 0 \<and> to_float p = Float p \<and>
               ?x \<le> 2 ^ 1023 * \<bar>p\<bar>" by metis
  qed
  from calculate_shares_returns[of py_float portfolio_size budget df, OF f ne lo hi pr']
  obtain df' where c: "calculate_shares py_float portfolio_size df = Inr df'"
    and ld: "length df' = length df"
    and rows: "\<forall>j<length df. df' ! j = (df ! j)\<lparr>Number_of_Shares_to_Buy :=
         Val (PyNum (of_int \<lfloor>round_to_double (?s / number (Price (df ! j)))\<rfloor>))\<rparr>"
    by blast
  have each: "cell_number (Number_of_Shares_to_Buy r) * number (Price r) \<le> ?x * ?u * ?u"
    if "r \<in> set df'" for r
  proof -
    from that obtain i where i: "i < length df'" "r = df' ! i" by (auto simp: in_set_conv_nth)
    with ld rows have r: "r = (df ! i)\<lparr>Number_of_Shares_to_Buy :=
         Val (PyNum (of_int \<lfloor>round_to_double (?s / number (Price (df ! i)))\<rfloor>))\<rparr>" by simp
    from i ld pr obtain p where p: "Price (df ! i) = PyNum p" "0 < p" by (metis nth_mem)
    from r p have "cell_number (Number_of_Shares_to_Buy r) * number (Price r)
         = of_int \<lfloor>round_to_double (?s / p)\<rfloor> * p" by simp
    also have "\<dots> \<le> ?s * ?u" using p(2) s0 by (rule floor_rounded_times_price)
    also have "\<dots> \<le> ?x * ?u * ?u" using s1 by (rule mult_right_mono) simp
    finally show ?thesis .
  qed
  have "allocated_value df' \<le> of_nat (length df') * (?x * ?u * ?u)"
    unfolding allocated_value_def by (rule sum_list_bounded) (rule each)
  also have "\<dots> = budget * ?u ^ 2" using n ld by (simp add: power2_eq_square)
  finally have total: "allocated_value df' \<le> budget * (1 + rounding_unit) ^ 2"
    by (simp only: rounding_unit_def)
  have close: "\<forall>i<length df. ?x / number (Price (df ! i)) \<le> 2 ^ 50 \<longrightarrow>
         \<bar>\<lfloor>round_to_double (?s / number (Price (df ! i)))\<rfloor> -
          \<lfloor>?x / number (Price (df ! i))\<rfloor>\<bar> \<le> 1"
  proof (intro allI impI)
    fix i assume i: "i < length df" and q: "?x / number (Price (df ! i)) \<le> 2 ^ 50"
    from i pr obtain p where p: "Price (df ! i) = PyNum p" "0 < p" by (metis nth_mem)
    from q p(1) have "?x / p \<le> 2 ^ 50" by simp
    with p(2) lo have "\<bar>\<lfloor>round_to_double (?s / p)\<rfloor> - \<lfloor>?x / p\<rfloor>\<bar> \<le> 1"
      by (rule rounded_floor_close)
    with p(1) show "\<bar>\<lfloor>round_to_double (?s / number (Price (df ! i)))\<rfloor> -
          \<lfloor>?x / number (Price (df ! i))\<rfloor>\<bar> \<le> 1" by simp
  qed
  from c ld rows close total show ?thesis by blast
qed

theorem calculate_shares_rounded_witness:
  "calculate_shares float_of_string ''10000'' (replicate 50 sample_row) =
     Inr (replicate 50 (sample_row\<lparr>Number_of_Shares_to_Buy := Val (PyNum 2)\<rparr>)) \<and>
   allocated_value (replicate 50 (sample_row\<lparr>Number_of_Shares_to_Buy := Val (PyNum 2)\<rparr>)) = 10000"
proof -
  let ?df = "replicate 50 sample_row"
  have ne: "?df \<noteq> []" by simp
  have lo: "1 / 2 ^ 1022 \<le> (10000::rat) / of_nat (length ?df)" by simp
  have hi: "(10000::rat) / of_nat (length ?df) \<le> 2 ^ 1023" by simp
  have pr: "\<forall>r\<in>set ?df. \<exists>p. Price r = PyNum p \<and> 0 < p \<and> to_float p = Float p \<and>
               10000 / of_nat (length ?df) \<le> 2 ^ 1023 * p"
    by (simp add: sample_row_def to_float_finite round_to_double_100)
  from calculate_shares_rounded[of float_of_string "''10000''" 10000 ?df,
      OF float_of_string_10000 ne lo hi pr]
  obtain df' where
    c: "calculate_shares float_of_string ''10000'' ?df = Inr df'" and l: "length df' = length ?df"
    and n: "\<forall>i<length ?df. df' ! i = (?df ! i)\<lparr>Number_of_Shares_to_Buy :=
         Val (PyNum (of_int \<lfloor>round_to_double
           (round_to_double (10000 / of_nat (length ?df)) / number (Price (?df ! i)))\<rfloor>))\<rparr>"
    by blast
  have "df' = replicate 50 (sample_row\<lparr>Number_of_Shares_to_Buy := Val (PyNum 2)\<rparr>)"
  proof (rule nth_equalityI)
    show "length df' = length (replicate 50 (sample_row\<lparr>Number_of_Shares_to_Buy := Val (PyNum 2)\<rparr>))"
      using l by simp
  next
    fix i assume "i < length df'"
    with l have i: "i < 50" by simp
    with n have "df' ! i = (?df ! i)\<lparr>Number_of_Shares_to_Buy :=
         Val (PyNum (of_int \<lfloor>round_to_double
           (round_to_double (10000 / of_nat (length ?df)) / number (Price (?df ! i)))\<rfloor>))\<rparr>"
      by simp
    with i show "df' ! i = replicate 50 (sample_row\<lparr>Number_of_Shares_to_Buy := Val (PyNum 2)\<rparr>) ! i"
      by (simp add: sample_row_def round_to_double_200 round_to_double_2)
  qed
  with c have "calculate_shares float_of_string ''10000'' ?df =
     Inr (replicate 50 (sample_row\<lparr>Number_of_Shares_to_Buy := Val (PyNum 2)\<rparr>))" by simp
  moreover have "allocated_value (replicate 50 (sample_row\<lparr>Number_of_Shares_to_Buy := Val (PyNum 2)\<rparr>)) = 10000"
    by (simp add: allocated_value_def sample_row_def sum_list_replicate)
  ultimately show ?thesis by blast
qed

lemma negative_row_shares:
  "calculate_shares float_of_string ''100'' [negative_row] =
     Inr [negative_row\<lparr>Number_of_Shares_to_Buy := Val (PyNum (- 34))\<rparr>]"
proof -
  have pn: "Price negative_row = PyNum (- 3)" by (simp add: negative_row_def)
  have q: "\<bar>round_to_double (100 / (- 3))\<bar> < 2 ^ 1024"
    by (simp only: round_to_double_third) simp
  have "\<lfloor>- (4691249611844267 / 140737488355328) :: rat\<rfloor> = - 34"
    by (rule floor_unique) simp_all
  then have fl: "\<lfloor>round_to_double (100 / (- 3))\<rfloor> = - 34"
    by (simp only: round_to_double_third)
  have "shares_of (Float 100) (PyNum (- 3)) = math_floor (to_float (100 / (- 3)))"
    unfolding shares_of_def as_float.simps
    by (simp add: to_float_finite round_to_double_minus_3 del: divide_minus_right)
  also have "\<dots> = Inr \<lfloor>round_to_double (100 / (- 3))\<rfloor>"
    by (simp only: to_float_finite[OF q] math_floor.simps)
  finally have "shares_of (Float 100) (PyNum (- 3)) = Inr (- 34)" by (simp only: fl)
  with pn have so: "shares_of (Float 100) (Price negative_row) = Inr (- 34)" by simp
  show ?thesis
    by (simp add: calculate_shares_def float_of_string_100 to_float_finite round_to_double_100
        shares_row_def so)
qed

text \<open>
  Claim C4 asks that a row with a zero or negative price be rejected with
  \<^verbatim>\<open>InvalidPriceError\<close>. The notebook never looks at the sign of a price: with a
  budget of 100 and one row priced at -3 the computation returns, with -34 shares.
\<close>

theorem negative_price_counterexample:
  "calculate_shares float_of_string ''100'' [sample_row\<lparr>Price := PyNum (- 3)\<rparr>] =
     Inr [sample_row\<lparr>Price := PyNum (- 3), Number_of_Shares_to_Buy := Val (PyNum (- 34))\<rparr>]"
  using negative_row_shares by (simp add: negative_row_def)

lemma calculate_shares_zero_price:
  assumes i: "i < length df" and z: "Price (df ! i) = PyNum 0"
  shows "\<exists>e df'. calculate_shares py_float portfolio_size df = Inl (e, df') \<and>
     length df' = length df \<and> df' ! i = df ! i"
proof (cases "py_float portfolio_size")
  case None
  then show ?thesis by (simp add: calculate_shares_def)
next
  case (Some budget)
  show ?thesis
  proof (cases "float_truediv budget (Float (of_nat (length df)))")
    case (Inl e)
    with Some show ?thesis by (simp add: calculate_shares_def)
  next
    case (Inr ps)
    let ?h = "shares_result ps df"
    have hi: "?h i = Inl ZeroDivisionError"
      using z by (simp add: shares_result_def shares_of_zero)
    have "\<not> (\<exists>df'. for_rows (shares_row ps) df [0..<length df] = Inr df')"
    proof
      assume "\<exists>df'. for_rows (shares_row ps) df [0..<length df] = Inr df'"
      then obtain df' where "for_rows (shares_row ps) df [0..<length df] = Inr df'" ..
      with shares_loop[of ps df] i have "?h i = Inr (df' ! i)" by blast
      with hi show False by simp
    qed
    then obtain e df' where f: "for_rows (shares_row ps) df [0..<length df] = Inl (e, df')"
      using for_rows_total by blast
    have d: "distinct [0..<length df]" by simp
    have s: "set [0..<length df] \<inter> {} = {}" by simp
    have b: "\<forall>i\<in>set [0..<length df]. i < length df" by simp
    from for_rows_raised[OF shares_row_raises_early visited_start d s b f]
    obtain pre j post where v: "visited ?h df df' ({} \<union> set pre)" by blast
    have "i \<notin> {} \<union> set pre"
    proof
      assume "i \<in> {} \<union> set pre"
      from v this i have "?h i = Inr (df' ! i)" by (rule visited_done)
      with hi show False by simp
    qed
    with v have "df' ! i = df ! i" using i by (rule visited_kept)
    moreover from v have "length df' = length df" by (rule visited_length)
    moreover from Some Inr f have "calculate_shares py_float portfolio_size df = Inl (e, df')"
      by (simp add: calculate_shares_def)
    ultimately show ?thesis by blast
  qed
qed

lemma calculate_shares_first_zero:
  assumes f: "py_float portfolio_size = Some budget"
    and i: "i < length df" and z: "Price (df ! i) = PyNum 0"
    and d: "float_truediv budget (Float (of_nat (length df))) = Inr position_size"
    and ok: "\<forall>j<i. \<exists>k. shares_of position_size (Price (df ! j)) = Inr k"
  shows "\<exists>df'. calculate_shares py_float portfolio_size df = Inl (ZeroDivisionError, df') \<and>
     length df' = length df \<and>
     (\<forall>j<i. \<exists>k. shares_of position_size (Price (df ! j)) = Inr k \<and>
        df' ! j = (df ! j)\<lparr>Number_of_Shares_to_Buy := Val (PyNum (of_int k))\<rparr>) \<and>
     (\<forall>j<length df. i \<le> j \<longrightarrow> df' ! j = df ! j)"
proof -
  let ?h = "shares_result position_size df"
  let ?pre = "[0..<i]" and ?post = "[Suc i..<length df]"
  have u: "[0..<length df] = ?pre @ i # ?post" using i by (rule upt_split)
  have hi: "?h i = Inl ZeroDivisionError"
    using z by (simp add: shares_result_def shares_of_zero)
  have hp: "\<forall>j\<in>set ?pre. \<exists>r. ?h j = Inr r"
  proof
    fix j assume "j \<in> set ?pre"
    then have "j < i" by simp
    with ok obtain k where "shares_of position_size (Price (df ! j)) = Inr k" by blast
    then show "\<exists>r. ?h j = Inr r" by (simp add: shares_result_def)
  qed
  have di: "distinct (?pre @ i # ?post)" unfolding u[symmetric] by simp
  have s: "set (?pre @ i # ?post) \<inter> {} = {}" by simp
  have b: "\<forall>j\<in>set (?pre @ i # ?post). j < length df" unfolding u[symmetric] by simp
  from for_rows_stops[OF shares_row_raises_early visited_start di s b hp hi]
  obtain df' where l: "for_rows (shares_row position_size) df (?pre @ i # ?post) =
      Inl (ZeroDivisionError, df')" and v: "visited ?h df df' ({} \<union> set ?pre)" by blast
  from f d l have c: "calculate_shares py_float portfolio_size df = Inl (ZeroDivisionError, df')"
    by (simp add: calculate_shares_def u[symmetric])
  have len: "length df' = length df" using v by (rule visited_length)
  have before: "\<exists>k. shares_of position_size (Price (df ! j)) = Inr k \<and>
        df' ! j = (df ! j)\<lparr>Number_of_Shares_to_Buy := Val (PyNum (of_int k))\<rparr>" if j: "j < i" for j
  proof -
    from j ok obtain k where k: "shares_of position_size (Price (df ! j)) = Inr k" by blast
    from j i have "j \<in> {} \<union> set ?pre" "j < length df" by simp_all
    with v have "?h j = Inr (df' ! j)" by (rule visited_done)
    with k have "df' ! j = (df ! j)\<lparr>Number_of_Shares_to_Buy := Val (PyNum (of_int k))\<rparr>"
      by (simp add: shares_result_def)
    with k show ?thesis by blast
  qed
  have after: "df' ! j = df ! j" if j: "j < length df" "i \<le> j" for j
  proof -
    from j(2) have "j \<notin> {} \<union> set ?pre" by simp
    with v show ?thesis using j(1) by (rule visited_kept)
  qed
  from c len before after show ?thesis by blast
qed

lemma calculate_shares_negative_price:
  assumes f: "py_float portfolio_size = Some (Float b)" and b: "0 < b"
    and i: "i < length df" and p: "Price (df ! i) = PyNum p" and n: "p < 0"
    and c: "calculate_shares py_float portfolio_size df = Inr df'"
  shows "\<exists>k\<le>0. df' ! i = (df ! i)\<lparr>Number_of_Shares_to_Buy := Val (PyNum (of_int k))\<rparr> \<and>
     k = \<lfloor>round_to_double (round_to_double (b / of_nat (length df)) / round_to_double p)\<rfloor>"
proof -
  let ?ps = "to_float (b / of_nat (length df))"
  have ln: "(of_nat (length df) :: rat) \<noteq> 0" using i by auto
  then have "float_truediv (Float b) (Float (of_nat (length df))) = Inr ?ps" by simp
  with f c have "for_rows (shares_row ?ps) df [0..<length df] = Inr df'"
    by (simp add: calculate_shares_def)
  with shares_loop[of ?ps df] i have r: "shares_result ?ps df i = Inr (df' ! i)" by blast
  then obtain k where k: "shares_of ?ps (PyNum p) = Inr k"
    and row: "df' ! i = (df ! i)\<lparr>Number_of_Shares_to_Buy := Val (PyNum (of_int k))\<rparr>"
    using p by (cases "shares_of ?ps (PyNum p)") (simp_all add: shares_result_def)
  from shares_of_Inr[OF k] obtain s where s: "?ps = Float s"
    and kv: "k = \<lfloor>round_to_double (s / round_to_double p)\<rfloor>" by blast
  from s have sv: "s = round_to_double (b / of_nat (length df))" by (rule to_float_Float)
  have "0 \<le> b / of_nat (length df)" using b by simp
  then have s0: "0 \<le> s" unfolding sv by (rule round_to_double_nonneg)
  have "round_to_double p \<le> 0" using n by (intro round_to_double_nonpos) simp
  with s0 have "s / round_to_double p \<le> 0" by (simp add: divide_le_0_iff)
  then have "round_to_double (s / round_to_double p) \<le> 0" by (rule round_to_double_nonpos)
  then have "\<lfloor>round_to_double (s / round_to_double p)\<rfloor> \<le> 0" by (simp add: floor_le_iff)
  with kv have "k \<le> 0" by simp
  with row kv sv show ?thesis by blast
qed

text \<open>
  Claim C4, as amended. No price is validated and no \<^verbatim>\<open>InvalidPriceError\<close> exists. For a
  row \<open>i\<close> whose price is zero the share computation fails and leaves that row without a
  share count. When the budget parses and the share expression succeeds on every row
  before \<open>i\<close>, the failure is the \<^verbatim>\<open>ZeroDivisionError\<close> of the division at row \<open>i\<close>: the
  rows before it keep the counts already written, and row \<open>i\<close> and the rows after it are
  untouched. A negative price is not rejected. When no price of the table is zero, all
  are doubles and nothing leaves the range of the doubles (\<open>B / N\<close> from \<open>1 / 2 ^ 1022\<close> to
  \<open>2 ^ 1023\<close>, the magnitude of every quotient at most \<open>2 ^ 1023\<close>), the computation returns.
  And whenever it returns for a positive budget, a row with a negative price holds the
  floor of the twice rounded quotient, which is zero or negative.
\<close>

theorem calculate_shares_unchecked_price:
  assumes "i < length df"
  shows "(Price (df ! i) = PyNum 0 \<longrightarrow>
            (\<exists>e df'. calculate_shares py_float portfolio_size df = Inl (e, df') \<and>
               length df' = length df \<and> df' ! i = df ! i)) \<and>
         (\<forall>budget position_size.
            Price (df ! i) = PyNum 0 \<and> py_float portfolio_size = Some budget \<and>
            float_truediv budget (Float (of_nat (length df))) = Inr position_size \<and>
            (\<forall>j<i. \<exists>k. shares_of position_size (Price (df ! j)) = Inr k) \<longrightarrow>
            (\<exists>df'. calculate_shares py_float portfolio_size df = Inl (ZeroDivisionError, df') \<and>
               length df' = length df \<and>
               (\<forall>j<i. \<exists>k. shares_of position_size (Price (df ! j)) = Inr k \<and>
                  df' ! j = (df ! j)\<lparr>Number_of_Shares_to_Buy := Val (PyNum (of_int k))\<rparr>) \<and>
               (\<forall>j<length df. i \<le> j \<longrightarrow> df' ! j = df ! j))) \<and>
         (\<forall>b.
            py_float portfolio_size = Some (Float b) \<and>
            1 / 2 ^ 1022 \<le> b / of_nat (length df) \<and> b / of_nat (length df) \<le> 2 ^ 1023 \<and>
            (\<forall>r\<in>set df. \<exists>q. Price r = PyNum q \<and> q \<noteq> 0 \<and> to_float q = Float q \<and>
               b / of_nat (length df) \<le> 2 ^ 1023 * \<bar>q\<bar>) \<longrightarrow>
            (\<exists>df'. calculate_shares py_float portfolio_size df = Inr df' \<and>
               length df' = length df)) \<and>
         (\<forall>b p df'.
            Price (df ! i) = PyNum p \<and> p < 0 \<and> py_float portfolio_size = Some (Float b) \<and> 0 < b \<and>
            calculate_shares py_float portfolio_size df = Inr df' \<longrightarrow>
            (\<exists>k\<le>0. df' ! i = (df ! i)\<lparr>Number_of_Shares_to_Buy := Val (PyNum (of_int k))\<rparr> \<and>
               k = \<lfloor>round_to_double
                     (round_to_double (b / of_nat (length df)) / round_to_double p)\<rfloor>))"
proof (intro conjI allI impI)
  assume "Price (df ! i) = PyNum 0"
  with assms show "\<exists>e df'. calculate_shares py_float portfolio_size df = Inl (e, df') \<and>
               length df' = length df \<and> df' ! i = df ! i"
    by (rule calculate_shares_zero_price)
next
  fix budget position_size
  assume a: "Price (df ! i) = PyNum 0 \<and> py_float portfolio_size = Some budget \<and>
            float_truediv budget (Float (of_nat (length df))) = Inr position_size \<and>
            (\<forall>j<i. \<exists>k. shares_of position_size (Price (df ! j)) = Inr k)"
  then have z: "Price (df ! i) = PyNum 0" and f: "py_float portfolio_size = Some budget"
    and d: "float_truediv budget (Float (of_nat (length df))) = Inr position_size"
    and ok: "\<forall>j<i. \<exists>k. shares_of position_size (Price (df ! j)) = Inr k" by blast+
  show "\<exists>df'. calculate_shares py_float portfolio_size df = Inl (ZeroDivisionError, df') \<and>
               length df' = length df \<and>
               (\<forall>j<i. \<exists>k. shares_of position_size (Price (df ! j)) = Inr k \<and>
                  df' ! j = (df ! j)\<lparr>Number_of_Shares_to_Buy := Val (PyNum (of_int k))\<rparr>) \<and>
               (\<forall>j<length df. i \<le> j \<longrightarrow> df' ! j = df ! j)"
    by (rule calculate_shares_first_zero[of py_float portfolio_size budget i df position_size,
          OF f assms z d ok])
next
  fix b
  assume a: "py_float portfolio_size = Some (Float b) \<and>
            1 / 2 ^ 1022 \<le> b / of_nat (length df) \<and> b / of_nat (length df) \<le> 2 ^ 1023 \<and>
            (\<forall>r\<in>set df. \<exists>q. Price r = PyNum q \<and> q \<noteq> 0 \<and> to_float q = Float q \<and>
               b / of_nat (length df) \<le> 2 ^ 1023 * \<bar>q\<bar>)"
  then have f: "py_float portfolio_size = Some (Float b)"
    and lo: "1 / 2 ^ 1022 \<le> b / of_nat (length df)" and hi: "b / of_nat (length df) \<le> 2 ^ 1023"
    and pr: "\<forall>r\<in>set df. \<exists>q. Price r = PyNum q \<and> q \<noteq> 0 \<and> to_float q = Float q \<and>
               b / of_nat (length df) \<le> 2 ^ 1023 * \<bar>q\<bar>" by blast+
  have ne: "df \<noteq> []" using assms by auto
  from calculate_shares_returns[of py_float portfolio_size b df, OF f ne lo hi pr]
  show "\<exists>df'. calculate_shares py_float portfolio_size df = Inr df' \<and> length df' = length df"
    by blast
next
  fix b p df'
  assume a: "Price (df ! i) = PyNum p \<and> p < 0 \<and> py_float portfolio_size = Some (Float b) \<and> 0 < b \<and>
            calculate_shares py_float portfolio_size df = Inr df'"
  then have p: "Price (df ! i) = PyNum p" and n: "p < 0"
    and f: "py_float portfolio_size = Some (Float b)" and b: "0 < b"
    and c: "calculate_shares py_float portfolio_size df = Inr df'" by blast+
  show "\<exists>k\<le>0. df' ! i = (df ! i)\<lparr>Number_of_Shares_to_Buy := Val (PyNum (of_int k))\<rparr> \<and>
               k = \<lfloor>round_to_double
                     (round_to_double (b / of_nat (length df)) / round_to_double p)\<rfloor>"
    by (rule calculate_shares_negative_price[of py_float portfolio_size b i df p df',
          OF f b assms p n c])
qed

lemma list_of_two: "length xs = 2 \<Longrightarrow> xs = [xs ! 0, xs ! 1]"
  by (auto simp: numeral_2_eq_2 length_Suc_conv)

theorem calculate_shares_unchecked_price_witness:
  "calculate_shares float_of_string ''100'' zero_priced =
     Inl (ZeroDivisionError,
          [sample_row\<lparr>Number_of_Shares_to_Buy := Val (PyNum 0)\<rparr>,
           sample_row\<lparr>Ticker := ''B'', Price := PyNum 0\<rparr>]) \<and>
   (\<exists>df'. calculate_shares float_of_string ''100'' [negative_row] = Inr df' \<and>
      length df' = 1 \<and>
      df' ! 0 = negative_row\<lparr>Number_of_Shares_to_Buy := Val (PyNum (- 34))\<rparr>)"
proof
  have i: "1 < length zero_priced" by (simp add: zero_priced_def)
  have t100: "to_float 100 = Float 100" by (simp add: to_float_finite round_to_double_100)
  have "shares_of (Float 50) (PyNum 100) = Inr \<lfloor>round_to_double (50 / 100)\<rfloor>"
    using t100 by (rule shares_of_positive) simp_all
  moreover have "\<lfloor>1 / 2 :: rat\<rfloor> = 0" by (rule floor_unique) simp_all
  ultimately have so: "shares_of (Float 50) (PyNum 100) = Inr 0"
    by (simp add: round_to_double_half)
  have p0: "Price (zero_priced ! 0) = PyNum 100" by (simp add: zero_priced_def sample_row_def)
  have h: "Price (zero_priced ! 1) = PyNum 0 \<and> float_of_string ''100'' = Some (Float 100) \<and>
      float_truediv (Float 100) (Float (of_nat (length zero_priced))) = Inr (Float 50) \<and>
      (\<forall>j<1. \<exists>k. shares_of (Float 50) (Price (zero_priced ! j)) = Inr k)"
    using so p0
    by (simp add: zero_priced_def float_of_string_100 to_float_finite round_to_double_50)
  note t = calculate_shares_unchecked_price[of 1 zero_priced float_of_string "''100''", OF i]
  from t[THEN conjunct2, THEN conjunct1, rule_format, of "Float 100" "Float 50", OF h]
  obtain df' where c: "calculate_shares float_of_string ''100'' zero_priced =
      Inl (ZeroDivisionError, df')" and l: "length df' = length zero_priced"
    and before: "\<forall>j<1. \<exists>k. shares_of (Float 50) (Price (zero_priced ! j)) = Inr k \<and>
        df' ! j = (zero_priced ! j)\<lparr>Number_of_Shares_to_Buy := Val (PyNum (of_int k))\<rparr>"
    and after: "\<forall>j<length zero_priced. 1 \<le> j \<longrightarrow> df' ! j = zero_priced ! j"
    by blast
  from before obtain k where "shares_of (Float 50) (Price (zero_priced ! 0)) = Inr k"
    "df' ! 0 = (zero_priced ! 0)\<lparr>Number_of_Shares_to_Buy := Val (PyNum (of_int k))\<rparr>" by auto
  with so p0 have r0: "df' ! 0 = sample_row\<lparr>Number_of_Shares_to_Buy := Val (PyNum 0)\<rparr>"
    by (simp add: zero_priced_def)
  from after i have r1: "df' ! 1 = sample_row\<lparr>Ticker := ''B'', Price := PyNum 0\<rparr>"
    by (simp add: zero_priced_def)
  from l have "length df' = 2" by (simp add: zero_priced_def)
  then have "df' = [df' ! 0, df' ! 1]" by (rule list_of_two)
  with r0 r1 have "df' = [sample_row\<lparr>Number_of_Shares_to_Buy := Val (PyNum 0)\<rparr>,
           sample_row\<lparr>Ticker := ''B'', Price := PyNum 0\<rparr>]" by simp
  with c show "calculate_shares float_of_string ''100'' zero_priced =
     Inl (ZeroDivisionError,
          [sample_row\<lparr>Number_of_Shares_to_Buy := Val (PyNum 0)\<rparr>,
           sample_row\<lparr>Ticker := ''B'', Price := PyNum 0\<rparr>])" by simp
next
  let ?df = "[negative_row]"
  have i: "0 < length ?df" by simp
  have pn: "Price (?df ! 0) = PyNum (- 3)" by (simp add: negative_row_def)
  note t = calculate_shares_unchecked_price[of 0 ?df float_of_string "''100''", OF i]
  have h3: "float_of_string ''100'' = Some (Float 100) \<and>
      1 / 2 ^ 1022 \<le> (100::rat) / of_nat (length ?df) \<and>
      (100::rat) / of_nat (length ?df) \<le> 2 ^ 1023 \<and>
      (\<forall>r\<in>set ?df. \<exists>q. Price r = PyNum q \<and> q \<noteq> 0 \<and> to_float q = Float q \<and>
         100 / of_nat (length ?df) \<le> 2 ^ 1023 * \<bar>q\<bar>)"
    by (simp add: float_of_string_100 negative_row_def to_float_finite round_to_double_minus_3)
  from t[THEN conjunct2, THEN conjunct2, THEN conjunct1, rule_format, of 100, OF h3]
  obtain df' where c: "calculate_shares float_of_string ''100'' ?df = Inr df'"
    and l: "length df' = length ?df" by blast
  from pn c have h4: "Price (?df ! 0) = PyNum (- 3) \<and> (- 3 :: rat) < 0 \<and>
      float_of_string ''100'' = Some (Float 100) \<and> (0::rat) < 100 \<and>
      calculate_shares float_of_string ''100'' ?df = Inr df'"
    by (simp add: float_of_string_100)
  from t[THEN conjunct2, THEN conjunct2, THEN conjunct2, rule_format, of "- 3" 100 df', OF h4]
  obtain k where k: "df' ! 0 = (?df ! 0)\<lparr>Number_of_Shares_to_Buy := Val (PyNum (of_int k))\<rparr>"
    "k = \<lfloor>round_to_double
            (round_to_double (100 / of_nat (length ?df)) / round_to_double (- 3))\<rfloor>"
    by blast
  have "round_to_double (100 / of_nat (length ?df)) = 100" by (simp add: round_to_double_100)
  with k(2) have "k = \<lfloor>round_to_double (100 / (- 3))\<rfloor>"
    by (simp only: round_to_double_minus_3)
  also have "\<dots> = \<lfloor>- (4691249611844267 / 140737488355328) :: rat\<rfloor>"
    by (simp only: round_to_double_third)
  also have "\<dots> = - 34" by (rule floor_unique) simp_all
  finally have "k = - 34" .
  with k(1) have "df' ! 0 = negative_row\<lparr>Number_of_Shares_to_Buy := Val (PyNum (- 34))\<rparr>"
    by simp
  with c l show "\<exists>df'. calculate_shares float_of_string ''100'' ?df = Inr df' \<and>
      length df' = 1 \<and>
      df' ! 0 = negative_row\<lparr>Number_of_Shares_to_Buy := Val (PyNum (- 34))\<rparr>"
    by simp
qed

text \<open>
  Claim C9 asks that the value handed to the allocation stage always parse as a positive
  number. No sign is checked: the entry \<^verbatim>\<open>-5\<close> is accepted at once and handed on.
\<close>

theorem negative_entry_counterexample:
  "\<not> positive_number float_of_string
       (fst (portfolio_input float_of_string (typing ''-5'' ''-5'') 0))"
  by (simp add: portfolio_input_def typing_def float_of_string_minus_5 positive_number_def)

text \<open>
  Claim C9, as amended. \<^verbatim>\<open>portfolio_input\<close> always returns. A first entry that parses
  as a number is handed on unchanged, after one prompt. After a first entry that does not
  parse the routine prompts again, and a second entry that parses is handed on. So
  whenever one of the first two entries parses, the value handed on is the first of them
  that does, and it parses as a number, whatever its sign.
\<close>

theorem portfolio_input_retry:
  "(py_float (entries k) \<noteq> None \<longrightarrow>
      portfolio_input py_float entries k = (entries k, Suc k)) \<and>
   (py_float (entries k) = None \<longrightarrow>
      Suc k < snd (portfolio_input py_float entries k)) \<and>
   (py_float (entries k) = None \<and> py_float (entries (Suc k)) \<noteq> None \<longrightarrow>
      portfolio_input py_float entries k = (entries (Suc k), Suc (Suc k))) \<and>
   (py_float (entries k) \<noteq> None \<or> py_float (entries (Suc k)) \<noteq> None \<longrightarrow>
      py_float (fst (portfolio_input py_float entries k)) \<noteq> None)"
  by (cases "py_float (entries k)") (simp_all add: portfolio_input_def Let_def)

theorem portfolio_input_retry_witness:
  "portfolio_input float_of_string (typing ''10000'' ''abc'') 0 = (''10000'', 1) \<and>
   portfolio_input float_of_string (typing ''abc'' ''10000'') 0 = (''10000'', 2) \<and>
   float_of_string (fst (portfolio_input float_of_string (typing ''abc'' ''10000'') 0)) \<noteq> None"
proof -
  have a: "float_of_string (typing ''10000'' ''abc'' 0) \<noteq> None"
    by (simp add: typing_def float_of_string_10000)
  have b: "float_of_string (typing ''abc'' ''10000'' 0) = None \<and>
      float_of_string (typing ''abc'' ''10000'' (Suc 0)) \<noteq> None"
    by (simp add: typing_def float_of_string_abc float_of_string_10000)
  from portfolio_input_retry[of float_of_string "typing ''10000'' ''abc''" 0] a
  have "portfolio_input float_of_string (typing ''10000'' ''abc'') 0 = (''10000'', 1)"
    by (simp add: typing_def)
  moreover from portfolio_input_retry[of float_of_string "typing ''abc'' ''10000''" 0] b
  have "portfolio_input float_of_string (typing ''abc'' ''10000'') 0 = (''10000'', 2) \<and>
      float_of_string (fst (portfolio_input float_of_string (typing ''abc'' ''10000'') 0)) \<noteq> None"
    by (simp add: typing_def numeral_2_eq_2)
  ultimately show ?thesis by blast
qed

text \<open>
  The second entry is taken as it is: after \<^verbatim>\<open>abc\<close> and \<^verbatim>\<open>def\<close> the global holds
  \<^verbatim>\<open>def\<close>, and \<^verbatim>\<open>float(portfolio_size)\<close> in the share computation raises
  \<^verbatim>\<open>ValueError\<close>.
\<close>

lemma second_entry_unchecked:
  "fst (portfolio_input float_of_string (typing ''abc'' ''def'') 0) = ''def'' \<and>
   calculate_shares float_of_string
     (fst (portfolio_input float_of_string (typing ''abc'' ''def'') 0)) df = Inl (ValueError, df)"
  by (simp add: portfolio_input_def typing_def float_of_string_abc float_of_string_def_entry
      calculate_shares_def)

section \<open>Properties of the percentile loop\<close>

lemma get_metric_set_percentile: "get_metric m (set_percentile m' c r) = get_metric m r"
  by (cases m; cases m'; simp)

lemma get_set_percentile:
  "get_percentile m (set_percentile m' c r) = (if m = m' then c else get_percentile m r)"
  by (cases m; cases m'; simp)

lemma fixed_columns_set_percentile: "fixed_columns (set_percentile m c r) = fixed_columns r"
  by (cases m) (simp_all add: fixed_columns_def)

lemma percentile_cell_cong: "column m df = column m df' \<Longrightarrow> percentile_cell df m v = percentile_cell df' m v"
  by (simp add: percentile_cell_def)

lemma percentile_row_cong:
  "(\<And>m. column m df = column m df') \<Longrightarrow> percentile_row df r ms = percentile_row df' r ms"
proof (induction ms arbitrary: r)
  case Nil
  then show ?case by simp
next
  case (Cons m ms)
  have "percentile_cell df m (get_metric m r) = percentile_cell df' m (get_metric m r)"
    using Cons.prems by (rule percentile_cell_cong)
  with Cons show ?case by (simp split: sum.splits)
qed

lemma column_update:
  "i < length df \<Longrightarrow> get_metric m r = get_metric m (df ! i) \<Longrightarrow> column m (df[i := r]) = column m df"
  by (simp add: column_def map_update list_update_same_conv)

lemma percentile_metrics_row:
  "i < length df \<Longrightarrow>
     (case percentile_row df (df ! i) ms of
        Inl e \<Rightarrow> (\<exists>df'. percentile_metrics df i ms = Inl (e, df'))
      | Inr r \<Rightarrow> percentile_metrics df i ms = Inr (df[i := r]))"
proof (induction ms arbitrary: df)
  case Nil
  then show ?case by simp
next
  case (Cons m ms)
  show ?case
  proof (cases "percentile_cell df m (get_metric m (df ! i))")
    case (Inl e)
    then show ?thesis by simp
  next
    case (Inr q)
    let ?r = "set_percentile m (Val q) (df ! i)"
    let ?df = "df[i := ?r]"
    have l: "i < length ?df" using Cons.prems by simp
    have c: "\<And>m'. column m' ?df = column m' df"
      using Cons.prems by (simp add: column_update get_metric_set_percentile)
    have n: "?df ! i = ?r" using Cons.prems by simp
    have "percentile_row ?df ?r ms = percentile_row df ?r ms"
      using c by (rule percentile_row_cong)
    with Cons.IH[OF l] n
    have "case percentile_row df ?r ms of
        Inl e \<Rightarrow> (\<exists>df'. percentile_metrics ?df i ms = Inl (e, df'))
      | Inr r \<Rightarrow> percentile_metrics ?df i ms = Inr (?df[i := r])"
      by simp
    with Inr show ?thesis by (simp split: sum.splits)
  qed
qed

lemma percentile_row_Inr:
  "percentile_row df r ms = Inr r' \<Longrightarrow>
     (\<forall>m. get_metric m r' = get_metric m r) \<and> fixed_columns r' = fixed_columns r \<and>
     (\<forall>m\<in>set ms. \<exists>q. percentile_cell df m (get_metric m r) = Inr q \<and> get_percentile m r' = Val q) \<and>
     (\<forall>m. m \<notin> set ms \<longrightarrow> get_percentile m r' = get_percentile m r)"
proof (induction ms arbitrary: r)
  case Nil
  then show ?case by simp
next
  case (Cons m ms)
  from Cons.prems obtain q where q: "percentile_cell df m (get_metric m r) = Inr q"
    and r1: "percentile_row df (set_percentile m (Val q) r) ms = Inr r'"
    by (auto split: sum.splits)
  let ?r1 = "set_percentile m (Val q) r"
  note ih = Cons.IH[OF r1]
  have a: "\<forall>m'. get_metric m' r' = get_metric m' r"
    using ih by (simp add: get_metric_set_percentile)
  have b: "fixed_columns r' = fixed_columns r"
    using ih by (simp add: fixed_columns_set_percentile)
  have c: "\<exists>q'. percentile_cell df m' (get_metric m' r) = Inr q' \<and> get_percentile m' r' = Val q'"
    if "m' \<in> set (m # ms)" for m'
  proof (cases "m' \<in> set ms")
    case True
    with ih show ?thesis by (simp add: get_metric_set_percentile)
  next
    case False
    with that have "m' = m" by simp
    moreover from ih False have "get_percentile m' r' = get_percentile m' ?r1" by blast
    ultimately show ?thesis using q by (simp add: get_set_percentile)
  qed
  have d: "get_percentile m' r' = get_percentile m' r" if "m' \<notin> set (m # ms)" for m'
  proof -
    from that have "m' \<notin> set ms" "m' \<noteq> m" by auto
    with ih have "get_percentile m' r' = get_percentile m' ?r1" by blast
    with \<open>m' \<noteq> m\<close> show ?thesis by (simp add: get_set_percentile)
  qed
  from a b c d show ?case by blast
qed

lemma percentile_row_Inl:
  "percentile_row df r ms = Inl e \<Longrightarrow> \<exists>m\<in>set ms. percentile_cell df m (get_metric m r) = Inl e"
proof (induction ms arbitrary: r)
  case Nil
  then show ?case by simp
next
  case (Cons m ms)
  show ?case
  proof (cases "percentile_cell df m (get_metric m r)")
    case (Inl e')
    with Cons.prems show ?thesis by simp
  next
    case (Inr q)
    with Cons.prems have "percentile_row df (set_percentile m (Val q) r) ms = Inl e" by simp
    from Cons.IH[OF this] show ?thesis by (auto simp: get_metric_set_percentile)
  qed
qed

lemma visited_columns:
  assumes v: "visited (\<lambda>i. percentile_row base (base ! i) ms) base df V"
  shows "column m df = column m base"
proof -
  have l: "length df = length base" using v by (simp add: visited_def)
  have "get_metric m (df ! j) = get_metric m (base ! j)" if j: "j < length base" for j
  proof (cases "j \<in> V")
    case True
    with v j have "percentile_row base (base ! j) ms = Inr (df ! j)" by (simp add: visited_def)
    from percentile_row_Inr[OF this] show ?thesis by blast
  next
    case False
    with v j show ?thesis by (simp add: visited_def)
  qed
  with l show ?thesis by (simp add: column_def list_eq_iff_nth_eq)
qed

lemma percentile_metrics_follows:
  "follows (\<lambda>df row. percentile_metrics df row ms) (\<lambda>i. percentile_row base (base ! i) ms) base"
  unfolding follows_def
proof (intro allI impI)
  fix df V i
  assume v: "visited (\<lambda>i. percentile_row base (base ! i) ms) base df V"
    and i: "i \<notin> V" "i < length base"
  from v i have e: "df ! i = base ! i" and l: "i < length df" by (simp_all add: visited_def)
  have "percentile_row df (base ! i) ms = percentile_row base (base ! i) ms"
    by (rule percentile_row_cong) (rule visited_columns[OF v])
  with e percentile_metrics_row[OF l, of ms]
  show "case percentile_row base (base ! i) ms of
          Inl e \<Rightarrow> (\<exists>df'. percentile_metrics df i ms = Inl (e, df'))
        | Inr r \<Rightarrow> percentile_metrics df i ms = Inr (df[i := r])"
    by simp
qed

lemma length_filter_mono:
  "(\<And>x. x \<in> set xs \<Longrightarrow> P x \<Longrightarrow> Q x) \<Longrightarrow> length (filter P xs) \<le> length (filter Q xs)"
  by (induction xs) auto

lemma length_filter_strict:
  assumes "\<And>x. x \<in> set xs \<Longrightarrow> P x \<Longrightarrow> Q x" "y \<in> set xs" "Q y" "\<not> P y"
  shows "length (filter P xs) < length (filter Q xs)"
proof -
  have "filter P xs = filter P (filter Q xs)"
    using assms(1) by (auto intro: filter_cong)
  moreover have "y \<in> set (filter Q xs)" using assms by simp
  ultimately show ?thesis using assms(4) by (metis length_filter_less)
qed

lemma rows_upto_split: "rows_upto m df x = rows_below m df x + rows_equal m df x"
  unfolding rows_upto_def rows_below_def rows_equal_def
  by (induction df) auto

lemma rows_upto_le: "rows_upto m df x \<le> length df"
  by (simp add: rows_upto_def)

lemma rows_below_less:
  assumes "r \<in> set df" "metric_value m r = x"
  shows "rows_below m df x < rows_upto m df x"
  unfolding rows_below_def rows_upto_def
  by (rule length_filter_strict[where y = r]) (use assms in auto)

lemma rows_below_mono: "x \<le> y \<Longrightarrow> rows_below m df x \<le> rows_below m df y"
  unfolding rows_below_def by (rule length_filter_mono) auto

lemma rows_upto_mono: "x \<le> y \<Longrightarrow> rows_upto m df x \<le> rows_upto m df y"
  unfolding rows_upto_def by (rule length_filter_mono) auto

lemma rank_percentile_mono:
  assumes "x \<le> y" shows "rank_percentile m df x \<le> rank_percentile m df y"
proof -
  have "rows_below m df x + rows_upto m df x + 1 \<le> rows_below m df y + rows_upto m df y + 1"
    using rows_below_mono[OF assms, of m df] rows_upto_mono[OF assms, of m df] by simp
  then have "(of_nat (rows_below m df x + rows_upto m df x + 1) :: rat)
      \<le> of_nat (rows_below m df y + rows_upto m df y + 1)"
    by (simp only: of_nat_le_iff)
  then show ?thesis unfolding rank_percentile_def by (rule divide_right_mono) simp
qed

lemma rank_percentile_pos: "df \<noteq> [] \<Longrightarrow> 0 < rank_percentile m df x"
  unfolding rank_percentile_def by simp

lemma rank_percentile_le_1:
  assumes "r \<in> set df" "metric_value m r = x"
  shows "rank_percentile m df x \<le> 1"
proof -
  have "rows_below m df x + rows_upto m df x + 1 \<le> 2 * length df"
    using rows_below_less[OF assms] rows_upto_le[of m df x] by simp
  then have "(of_nat (rows_below m df x + rows_upto m df x + 1) :: rat) \<le> of_nat (2 * length df)"
    by (simp only: of_nat_le_iff)
  moreover have "(0::rat) < of_nat (2 * length df)" using assms(1) by (cases df) auto
  ultimately show ?thesis unfolding rank_percentile_def by simp
qed

lemma rank_percentile_unique:
  assumes "rows_equal m df x = 1" "df \<noteq> []"
  shows "rank_percentile m df x = claimed_percentile m df x"
proof -
  have "rows_upto m df x = rows_below m df x + 1"
    using assms(1) by (simp add: rows_upto_split)
  then have "rows_below m df x + rows_upto m df x + 1 = 2 * rows_upto m df x" by simp
  then have "rank_percentile m df x = of_nat (2 * rows_upto m df x) / of_nat (2 * length df)"
    unfolding rank_percentile_def by (simp only:)
  also have "\<dots> = claimed_percentile m df x"
    unfolding claimed_percentile_def by simp
  finally show ?thesis .
qed

lemma no_missing_number:
  "no_missing m df \<Longrightarrow> r \<in> set df \<Longrightarrow> get_metric m r = PyNum (metric_value m r)"
  by (cases "get_metric m r") (auto simp: no_missing_def list_all_iff metric_value_def)

lemma count_less_score:
  assumes "no_missing m df"
  shows "length (filter (\<lambda>v. less_score v x) (column m df)) = rows_below m df x"
proof -
  have "filter (\<lambda>r. less_score (get_metric m r) x) df = filter (\<lambda>r. metric_value m r < x) df"
  proof (rule filter_cong[OF refl])
    fix r assume "r \<in> set df"
    from no_missing_number[OF assms this] have "get_metric m r = PyNum (metric_value m r)" .
    then show "less_score (get_metric m r) x = (metric_value m r < x)"
      by (metis less_score.simps(1))
  qed
  then show ?thesis by (simp add: column_def rows_below_def filter_map o_def)
qed

lemma count_less_eq_score:
  assumes "no_missing m df"
  shows "length (filter (\<lambda>v. less_eq_score v x) (column m df)) = rows_upto m df x"
proof -
  have "filter (\<lambda>r. less_eq_score (get_metric m r) x) df = filter (\<lambda>r. metric_value m r \<le> x) df"
  proof (rule filter_cong[OF refl])
    fix r assume "r \<in> set df"
    from no_missing_number[OF assms this] have "get_metric m r = PyNum (metric_value m r)" .
    then show "less_eq_score (get_metric m r) x = (metric_value m r \<le> x)"
      by (metis less_eq_score.simps(1))
  qed
  then show ?thesis by (simp add: column_def rows_upto_def filter_map o_def)
qed

lemma no_missing_no_None: "no_missing m df \<Longrightarrow> PyNone \<notin> set (column m df)"
  by (auto simp: no_missing_def list_all_iff column_def)

lemma percentile_cell_rank:
  assumes nm: "no_missing m df" and r: "r \<in> set df"
  shows "percentile_cell df m (get_metric m r) = Inr (PyNum (rank_percentile m df (metric_value m r)))"
proof -
  let ?x = "metric_value m r"
  let ?L = "rows_below m df ?x" and ?R = "rows_upto m df ?x"
  have g: "get_metric m r = PyNum ?x" using nm r by (rule no_missing_number)
  have n: "length (column m df) \<noteq> 0" using r by (auto simp: column_def)
  have ln: "length (column m df) = length df" by (simp add: column_def)
  have lt: "?L < ?R" using r by (rule rows_below_less) simp
  have "percentileofscore (column m df) (PyNum ?x) =
      Inr (PyNum (of_nat (?R + ?L + 1) * 50 / of_nat (length df)))"
    using n lt no_missing_no_None[OF nm]
    by (simp add: Let_def count_less_score[OF nm] count_less_eq_score[OF nm] ln)
  moreover have "(of_nat (?R + ?L + 1) * 50 / of_nat (length df) / 100 :: rat)
      = rank_percentile m df ?x"
  proof -
    have "(k * 50 / n / 100 :: rat) = k / (2 * n)" for k n
      by (cases "n = 0") (simp_all add: field_simps)
    note k = this
    have e: "(of_nat (?R + ?L + 1) :: rat) = of_nat (?L + ?R + 1)" by (simp add: add.commute)
    show ?thesis unfolding rank_percentile_def by (simp only: k e of_nat_mult of_nat_numeral)
  qed
  ultimately show ?thesis by (simp add: percentile_cell_def g)
qed

lemmas percentile_loop = for_rows_index[OF percentile_metrics_follows]

lemma calculate_percentiles_Inr:
  assumes "calculate_percentiles df = Inr df'"
  shows "length df' = length df \<and>
    (\<forall>j<length df. \<forall>m. \<exists>q. percentile_cell df m (get_metric m (df ! j)) = Inr q \<and>
        get_percentile m (df' ! j) = Val q \<and> get_metric m (df' ! j) = get_metric m (df ! j))"
proof -
  note l = percentile_loop[of metrics_keys df]
  from assms l have len: "length df' = length df"
    and r: "\<forall>j<length df. percentile_row df (df ! j) metrics_keys = Inr (df' ! j)"
    unfolding calculate_percentiles_def by blast+
  have "\<exists>q. percentile_cell df m (get_metric m (df ! j)) = Inr q \<and>
        get_percentile m (df' ! j) = Val q \<and> get_metric m (df' ! j) = get_metric m (df ! j)"
    if j: "j < length df" for j m
  proof -
    from r j have "percentile_row df (df ! j) metrics_keys = Inr (df' ! j)" by blast
    note p = percentile_row_Inr[OF this]
    have "m \<in> set metrics_keys" unfolding metrics_keys_def by (rule metric_listed)
    with p show ?thesis by blast
  qed
  with len show ?thesis by blast
qed

lemma calculate_percentiles_Inl:
  assumes "calculate_percentiles df = Inl (e, d)"
  shows "\<exists>j<length df. \<exists>m. percentile_cell df m (get_metric m (df ! j)) = Inl e"
proof -
  note l = percentile_loop[of metrics_keys df]
  from assms l obtain j where j: "j < length df"
    and "percentile_row df (df ! j) metrics_keys = Inl e"
    unfolding calculate_percentiles_def by blast
  from percentile_row_Inl[OF this(2)] j show ?thesis by blast
qed

lemma calculate_percentiles_total:
  assumes "\<And>j m. j < length df \<Longrightarrow> \<exists>q. percentile_cell df m (get_metric m (df ! j)) = Inr q"
  shows "\<exists>df'. calculate_percentiles df = Inr df'"
proof (cases "calculate_percentiles df")
  case (Inl failure)
  then obtain e d where "calculate_percentiles df = Inl (e, d)" by (cases failure) simp
  from calculate_percentiles_Inl[OF this] obtain j m where
    "j < length df" "percentile_cell df m (get_metric m (df ! j)) = Inl e" by blast
  with assms[of j m] show ?thesis by auto
next
  case (Inr df')
  then show ?thesis by blast
qed

text \<open>
  Claim C1, as amended. On a table without missing metric cells the percentile loop
  returns, and the percentile of row \<open>r\<close> for a metric is
  \<open>(|{s. value s < value r}| + |{s. value s \<le> value r}| + 1) / (2 |universe|)\<close>. It is a
  function of the row's value, so rows with equal values get equal percentiles; it lies
  in (0,1]; it equals \<open>|{s. value s \<le> value r}| / |universe|\<close> when no other row has
  the value of \<open>r\<close>; and it is non-decreasing in the value, so a row with the smallest
  value has the smallest percentile.
\<close>

theorem percentile_rank:
  assumes "\<forall>m. no_missing m df"
  shows "\<exists>df'. calculate_percentiles df = Inr df' \<and> length df' = length df \<and>
     (\<forall>i<length df. \<forall>m.
        get_percentile m (df' ! i) = Val (PyNum (rank_percentile m df (metric_value m (df ! i)))) \<and>
        0 < rank_percentile m df (metric_value m (df ! i)) \<and>
        rank_percentile m df (metric_value m (df ! i)) \<le> 1 \<and>
        (rows_equal m df (metric_value m (df ! i)) = 1 \<longrightarrow>
           rank_percentile m df (metric_value m (df ! i)) =
           claimed_percentile m df (metric_value m (df ! i))) \<and>
        (\<forall>j<length df. metric_value m (df ! j) \<le> metric_value m (df ! i) \<longrightarrow>
           rank_percentile m df (metric_value m (df ! j)) \<le>
           rank_percentile m df (metric_value m (df ! i))))"
proof -
  have cell: "percentile_cell df m (get_metric m (df ! j)) =
      Inr (PyNum (rank_percentile m df (metric_value m (df ! j))))" if "j < length df" for j m
    using assms that by (intro percentile_cell_rank) auto
  then have "\<exists>df'. calculate_percentiles df = Inr df'"
    by (intro calculate_percentiles_total) blast
  then obtain df' where c: "calculate_percentiles df = Inr df'" ..
  note r = calculate_percentiles_Inr[OF c]
  have "get_percentile m (df' ! i) = Val (PyNum (rank_percentile m df (metric_value m (df ! i)))) \<and>
        0 < rank_percentile m df (metric_value m (df ! i)) \<and>
        rank_percentile m df (metric_value m (df ! i)) \<le> 1 \<and>
        (rows_equal m df (metric_value m (df ! i)) = 1 \<longrightarrow>
           rank_percentile m df (metric_value m (df ! i)) =
           claimed_percentile m df (metric_value m (df ! i))) \<and>
        (\<forall>j<length df. metric_value m (df ! j) \<le> metric_value m (df ! i) \<longrightarrow>
           rank_percentile m df (metric_value m (df ! j)) \<le>
           rank_percentile m df (metric_value m (df ! i)))"
    if i: "i < length df" for i m
  proof -
    have ne: "df \<noteq> []" using i by auto
    have mem: "df ! i \<in> set df" using i by simp
    from r i obtain q where "percentile_cell df m (get_metric m (df ! i)) = Inr q"
      "get_percentile m (df' ! i) = Val q" by blast
    with cell[OF i, of m] have a: "get_percentile m (df' ! i) =
        Val (PyNum (rank_percentile m df (metric_value m (df ! i))))" by simp
    have b: "0 < rank_percentile m df (metric_value m (df ! i))"
      using ne by (rule rank_percentile_pos)
    have c: "rank_percentile m df (metric_value m (df ! i)) \<le> 1"
      using mem by (rule rank_percentile_le_1) simp
    from a b c ne show ?thesis
      by (simp add: rank_percentile_unique rank_percentile_mono)
  qed
  with c r show ?thesis by blast
qed

lemma upt_2: "[0..<2] = [0, 1]"
  by (simp add: upt_rec)

lemma tied_rows_ranked: "calculate_percentiles tied_rows = Inr tied_ranked"
  by (simp add: calculate_percentiles_def tied_rows_def tied_ranked_def three_quarters_def
      sample_row_def metrics_keys_def percentile_cell_def column_def upt_2)

text \<open>
  Claim C1 gives the percentile as the number of rows up to the row's value, divided by
  the number of rows. \<^verbatim>\<open>percentileofscore\<close> is called with its default
  \<^verbatim>\<open>kind='rank'\<close>, which averages over ties: for two rows with the same ratios every
  percentile is 3/4, where the formula of the claim gives 1.
\<close>

theorem tied_percentile_counterexample:
  "calculate_percentiles tied_rows = Inr tied_ranked \<and>
   PE_Percentile (tied_ranked ! 0) = Val (PyNum (3 / 4)) \<and>
   claimed_percentile PE tied_rows (metric_value PE (tied_rows ! 0)) = 1"
  using tied_rows_ranked
  by (simp add: tied_rows_def tied_ranked_def three_quarters_def sample_row_def
      claimed_percentile_def rows_upto_def metric_value_def)

theorem percentile_rank_witness:
  "\<exists>df'. calculate_percentiles imputed_rows = Inr df' \<and>
     PE_Percentile (df' ! 0) = Val (PyNum (1 / 3)) \<and>
     PE_Percentile (df' ! 1) = Val (PyNum 1) \<and>
     PE_Percentile (df' ! 2) = Val (PyNum (2 / 3))"
proof -
  have h: "\<forall>m. no_missing m imputed_rows"
  proof
    fix m show "no_missing m imputed_rows"
      by (cases m) (simp_all add: no_missing_def imputed_rows_def sample_row_def)
  qed
  from percentile_rank[OF h] obtain df' where
    c: "calculate_percentiles imputed_rows = Inr df'" and
    p: "\<forall>i<length imputed_rows. \<forall>m. get_percentile m (df' ! i) =
        Val (PyNum (rank_percentile m imputed_rows (metric_value m (imputed_rows ! i))))"
    by blast
  have l: "length imputed_rows = 3" by (simp add: imputed_rows_def)
  have r0: "rank_percentile PE imputed_rows (metric_value PE (imputed_rows ! 0)) = 1 / 3"
    and r1: "rank_percentile PE imputed_rows (metric_value PE (imputed_rows ! 1)) = 1"
    and r2: "rank_percentile PE imputed_rows (metric_value PE (imputed_rows ! 2)) = 2 / 3"
    by (simp_all add: rank_percentile_def rows_below_def rows_upto_def metric_value_def
        imputed_rows_def sample_row_def)
  from p l have "get_percentile PE (df' ! 0) =
        Val (PyNum (rank_percentile PE imputed_rows (metric_value PE (imputed_rows ! 0))))"
    "get_percentile PE (df' ! 1) =
        Val (PyNum (rank_percentile PE imputed_rows (metric_value PE (imputed_rows ! 1))))"
    "get_percentile PE (df' ! 2) =
        Val (PyNum (rank_percentile PE imputed_rows (metric_value PE (imputed_rows ! 2))))"
    by (auto simp del: get_percentile.simps)
  with r0 r1 r2 c show ?thesis by simp
qed

section \<open>Columns without any defined value\<close>

lemma defined_values_empty: "\<forall>v\<in>set vs. isna v \<Longrightarrow> defined_values vs = []"
  by (induction vs rule: defined_values.induct) auto

lemma col_mean_all_missing: "\<forall>v\<in>set vs. isna v \<Longrightarrow> col_mean vs = PyNaN"
  by (simp add: col_mean_def defined_values_empty)

lemma not_has_value: "\<not> has_value m df \<Longrightarrow> \<forall>v\<in>set (column m df). isna v"
  by (auto simp: has_value_def column_def list_ex_iff)

lemma all_nan_not_has_value: "all_nan m df \<Longrightarrow> \<not> has_value m df"
  by (auto simp: all_nan_def has_value_def list_all_iff list_ex_iff)

lemma impute_column_all_missing: "\<not> has_value m df \<Longrightarrow> all_nan m (impute_column m df)"
proof -
  assume h: "\<not> has_value m df"
  then have c: "col_mean (column m df) = PyNaN"
    by (intro col_mean_all_missing not_has_value)
  from h have "\<forall>r\<in>set df. isna (get_metric m r)"
    by (auto simp: has_value_def list_ex_iff)
  with c show ?thesis
    by (auto simp: all_nan_def impute_column_def Let_def list_all_iff get_set_metric fillna_def)
qed

lemma impute_column_all_nan: "all_nan m df \<Longrightarrow> all_nan m (impute_column m' df)"
proof (cases "m' = m")
  case True
  assume a: "all_nan m df"
  then have "all_nan m (impute_column m df)"
    by (intro impute_column_all_missing all_nan_not_has_value)
  with True show ?thesis by simp
next
  case False
  assume "all_nan m df"
  with False show ?thesis
    by (auto simp: all_nan_def impute_column_def Let_def list_all_iff get_set_metric)
qed

lemma impute_column_not_has_value:
  "\<not> has_value m df \<Longrightarrow> m' \<noteq> m \<Longrightarrow> \<not> has_value m (impute_column m' df)"
  by (auto simp: has_value_def impute_column_def Let_def list_ex_iff get_set_metric)

lemma fold_impute_column_all_nan: "all_nan m df \<Longrightarrow> all_nan m (fold impute_column ms df)"
  by (induction ms arbitrary: df) (simp_all add: impute_column_all_nan)

lemma fold_impute_column_all_missing:
  "m \<in> set ms \<Longrightarrow> \<not> has_value m df \<Longrightarrow> all_nan m (fold impute_column ms df)"
proof (induction ms arbitrary: df)
  case Nil
  then show ?case by simp
next
  case (Cons m0 ms)
  show ?case
  proof (cases "m = m0")
    case True
    with Cons.prems show ?thesis
      by (simp add: impute_column_all_missing fold_impute_column_all_nan)
  next
    case False
    with Cons.prems have "m \<in> set ms" by simp
    moreover have "\<not> has_value m (impute_column m0 df)"
      using Cons.prems False by (simp add: impute_column_not_has_value)
    ultimately show ?thesis using Cons.IH by simp
  qed
qed

lemma impute_all_missing: "\<not> has_value m df \<Longrightarrow> all_nan m (impute df)"
  unfolding impute_def by (rule fold_impute_column_all_missing[OF metric_listed])

lemma impute_no_None: "PyNone \<notin> set (column m (impute df))"
proof (cases "has_value m df")
  case True
  then have "no_missing m (impute df)" by (rule impute_fills)
  then show ?thesis by (rule no_missing_no_None)
next
  case False
  then have "all_nan m (impute df)" by (rule impute_all_missing)
  then show ?thesis by (auto simp: all_nan_def list_all_iff column_def)
qed

lemma less_le_count:
  "length (filter (\<lambda>v. less_score v x) a) \<le> length (filter (\<lambda>v. less_eq_score v x) a)"
proof (rule length_filter_mono)
  fix v assume "less_score v x" then show "less_eq_score v x" by (cases v) auto
qed

lemma percentileofscore_range:
  assumes "percentileofscore a v = Inr q"
  shows "q \<noteq> PyNone \<and> (v = PyNaN \<longrightarrow> q = PyNaN) \<and> (\<forall>p. q = PyNum p \<longrightarrow> 0 \<le> p \<and> p \<le> 100)"
proof (cases v)
  case PyNone
  with assms show ?thesis by simp
next
  case PyNaN
  with assms show ?thesis by auto
next
  case (PyNum x)
  let ?L = "length (filter (\<lambda>v. less_score v x) a)"
  let ?R = "length (filter (\<lambda>v. less_eq_score v x) a)"
  let ?k = "?R + ?L + (if ?R > ?L then 1 else 0)"
  show ?thesis
  proof (cases "length a = 0")
    case True
    with assms PyNum show ?thesis by auto
  next
    case False
    with assms PyNum have q: "q = PyNum (of_nat ?k * 50 / of_nat (length a))"
      by (auto simp: Let_def split: if_splits)
    have ar: "L \<le> R \<Longrightarrow> R \<le> n \<Longrightarrow> R + L + (if R > L then 1 else 0) \<le> 2 * n"
      for L R n :: nat by simp
    have "?k \<le> 2 * length a"
      by (rule ar) (rule less_le_count, rule length_filter_le)
    then have "(of_nat ?k :: rat) \<le> of_nat (2 * length a)" by (simp only: of_nat_le_iff)
    then have "(of_nat ?k :: rat) * 50 \<le> 100 * of_nat (length a)" by simp
    moreover have "(0::rat) < of_nat (length a)" using False by simp
    ultimately have "(of_nat ?k :: rat) * 50 / of_nat (length a) \<le> 100"
      by (simp add: pos_divide_le_eq)
    moreover have "(0::rat) \<le> of_nat ?k * 50 / of_nat (length a)" by simp
    ultimately show ?thesis using q PyNum by simp
  qed
qed

lemma percentile_cell_range:
  assumes "percentile_cell df m v = Inr q"
  shows "q \<noteq> PyNone \<and> (v = PyNaN \<longrightarrow> q = PyNaN) \<and> (\<forall>p. q = PyNum p \<longrightarrow> 0 \<le> p \<and> p \<le> 1)"
proof -
  from assms obtain q0 where a: "percentileofscore (column m df) v = Inr q0"
    and b: "truediv q0 (PyNum 100) = Inr q"
    by (auto simp: percentile_cell_def split: sum.splits)
  note r = percentileofscore_range[OF a]
  show ?thesis
  proof (cases q0)
    case PyNone
    with r show ?thesis by simp
  next
    case PyNaN
    with b show ?thesis by auto
  next
    case (PyNum p0)
    with r have "0 \<le> p0" "p0 \<le> 100" "v \<noteq> PyNaN" by auto
    with b PyNum show ?thesis by auto
  qed
qed

lemma percentile_cell_total:
  assumes "PyNone \<notin> set (column m df)" "v \<in> set (column m df)"
  shows "\<exists>q. percentile_cell df m v = Inr q"
proof (cases v)
  case PyNone
  with assms show ?thesis by simp
next
  case PyNaN
  then show ?thesis by (simp add: percentile_cell_def)
next
  case (PyNum x)
  have "length (column m df) \<noteq> 0" using assms(2) by auto
  with assms(1) PyNum show ?thesis by (simp add: percentile_cell_def Let_def)
qed

section \<open>Properties of the RV score\<close>

lemma py_mean_numbers:
  assumes "\<forall>m. get_percentile m r = Val (PyNum (p m))"
  shows "py_mean (map (\<lambda>m. get_percentile m r) metrics_keys) =
     Inr (PyNum ((p PE + p PB + p PS + p EVEBITDA + p EVGP) / 5))"
proof -
  have "map (\<lambda>m. get_percentile m r) metrics_keys =
      [Val (PyNum (p PE)), Val (PyNum (p PB)), Val (PyNum (p PS)), Val (PyNum (p EVEBITDA)),
       Val (PyNum (p EVGP))]"
    unfolding metrics_keys_def using assms by (simp del: get_percentile.simps)
  then show ?thesis by (simp add: py_mean_def add.assoc)
qed

lemma py_mean_total:
  assumes "\<forall>m. \<exists>v. get_percentile m r = Val v \<and> v \<noteq> PyNone"
  shows "\<exists>s. py_mean (map (\<lambda>m. get_percentile m r) metrics_keys) = Inr s"
proof -
  let ?d = "map (\<lambda>m. get_percentile m r) metrics_keys"
  have "NA \<notin> set ?d" "Val PyNone \<notin> set ?d" using assms by (auto, metis cell.distinct(1), metis cell.inject)
  moreover have "\<not> length ?d < 1" by (simp add: metrics_keys_def)
  ultimately show ?thesis by (simp add: py_mean_def del: set_map)
qed

lemma py_mean_nan:
  assumes "\<forall>m. \<exists>v. get_percentile m r = Val v \<and> v \<noteq> PyNone" "get_percentile m0 r = Val PyNaN"
  shows "py_mean (map (\<lambda>m. get_percentile m r) metrics_keys) = Inr PyNaN"
proof -
  let ?d = "map (\<lambda>m. get_percentile m r) metrics_keys"
  have "NA \<notin> set ?d" "Val PyNone \<notin> set ?d" using assms(1) by (auto, metis cell.distinct(1), metis cell.inject)
  moreover have "\<not> length ?d < 1" by (simp add: metrics_keys_def)
  moreover have "m0 \<in> set metrics_keys" unfolding metrics_keys_def by (rule metric_listed)
  then have "Val PyNaN \<in> set ?d" using assms(2) by (metis image_eqI set_map)
  ultimately show ?thesis by (simp add: py_mean_def del: set_map)
qed

lemma rv_row_raises_early: "raises_early rv_row (rv_result base) base"
  unfolding raises_early_def
proof (intro allI impI)
  fix df V i
  assume "visited (rv_result base) base df V" "i \<notin> V" "i < length base"
  then have "df ! i = base ! i" by (simp add: visited_def)
  then show "rv_row df i =
      (case rv_result base i of Inl e \<Rightarrow> Inl (e, df) | Inr r \<Rightarrow> Inr (df[i := r]))"
    by (simp add: rv_row_def rv_result_def Let_def split: sum.splits)
qed

lemmas rv_row_follows = raises_early_follows[OF rv_row_raises_early]

lemmas rv_loop = for_rows_index[OF rv_row_follows]

lemma calculate_rv_score_Inr:
  "calculate_rv_score df = Inr df2 \<Longrightarrow>
     length df2 = length df \<and> (\<forall>j<length df. rv_result df j = Inr (df2 ! j))"
  unfolding calculate_rv_score_def using rv_loop[of df] by blast

lemma calculate_rv_score_total:
  assumes "\<And>j. j < length df \<Longrightarrow> \<exists>r. rv_result df j = Inr r"
  shows "\<exists>df2. calculate_rv_score df = Inr df2"
proof (cases "calculate_rv_score df")
  case (Inl failure)
  then obtain e d where "calculate_rv_score df = Inl (e, d)" by (cases failure) simp
  with rv_loop[of df] obtain j where "j < length df" "rv_result df j = Inl e"
    unfolding calculate_rv_score_def by blast
  with assms[of j] show ?thesis by auto
next
  case (Inr df2)
  then show ?thesis by blast
qed

lemma rv_result_numbers:
  assumes "\<forall>m. get_percentile m (df ! i) = Val (PyNum (p m))"
  shows "rv_result df i =
     Inr ((df ! i)\<lparr>RV_Score := Val (PyNum ((p PE + p PB + p PS + p EVEBITDA + p EVGP) / 5))\<rparr>)"
  by (simp only: rv_result_def py_mean_numbers[OF assms] sum.case)

lemma get_percentile_RV_Score: "get_percentile m (r\<lparr>RV_Score := c\<rparr>) = get_percentile m r"
  by (cases m) simp_all

lemma get_metric_RV_Score: "get_metric m (r\<lparr>RV_Score := c\<rparr>) = get_metric m r"
  by (cases m) simp_all

lemma ranked_cells:
  assumes "calculate_percentiles df0 = Inr df" "i < length df"
  shows "\<exists>v. get_percentile m (df ! i) = Val v \<and> v \<noteq> PyNone \<and>
     (get_metric m (df0 ! i) = PyNaN \<longrightarrow> v = PyNaN) \<and>
     (\<forall>p. v = PyNum p \<longrightarrow> 0 \<le> p \<and> p \<le> 1)"
proof -
  note r = calculate_percentiles_Inr[OF assms(1)]
  with assms(2) have i: "i < length df0" by simp
  with r obtain q where q: "percentile_cell df0 m (get_metric m (df0 ! i)) = Inr q"
    "get_percentile m (df ! i) = Val q" by blast
  from percentile_cell_range[OF q(1)] q(2) show ?thesis by blast
qed

lemma ranked_rv_total:
  assumes c: "calculate_percentiles df0 = Inr df"
  shows "\<exists>df2. calculate_rv_score df = Inr df2"
proof (rule calculate_rv_score_total)
  fix j assume j: "j < length df"
  have "\<forall>m. \<exists>v. get_percentile m (df ! j) = Val v \<and> v \<noteq> PyNone"
    using ranked_cells[OF c j] by blast
  from py_mean_total[OF this] show "\<exists>r. rv_result df j = Inr r"
    by (auto simp: rv_result_def)
qed

text \<open>
  Claim C6. Whenever the score loop returns, a row whose five percentile cells hold
  numbers gets as its RV score their sum divided by 5, each with the same weight. After
  the percentile loop the score loop always returns, and such a score lies in [0,1].
\<close>

theorem rv_score_is_mean:
  "(\<forall>df2 i p. calculate_rv_score df = Inr df2 \<and> i < length df \<and>
        (\<forall>m. get_percentile m (df ! i) = Val (PyNum (p m))) \<longrightarrow>
        RV_Score (df2 ! i) = Val (PyNum ((p PE + p PB + p PS + p EVEBITDA + p EVGP) / 5))) \<and>
   (\<forall>df0. calculate_percentiles df0 = Inr df \<longrightarrow>
        (\<exists>df2. calculate_rv_score df = Inr df2 \<and> length df2 = length df) \<and>
        (\<forall>i p. i < length df \<and> (\<forall>m. get_percentile m (df ! i) = Val (PyNum (p m))) \<longrightarrow>
           0 \<le> (p PE + p PB + p PS + p EVEBITDA + p EVGP) / 5 \<and>
           (p PE + p PB + p PS + p EVEBITDA + p EVGP) / 5 \<le> 1))"
proof (intro conjI allI impI)
  fix df2 i and p :: "metric \<Rightarrow> rat"
  assume a: "calculate_rv_score df = Inr df2 \<and> i < length df \<and>
        (\<forall>m. get_percentile m (df ! i) = Val (PyNum (p m)))"
  then have n: "\<forall>m. get_percentile m (df ! i) = Val (PyNum (p m))" by blast
  from a calculate_rv_score_Inr have "rv_result df i = Inr (df2 ! i)" by blast
  with rv_result_numbers[OF n] have "df2 ! i =
      (df ! i)\<lparr>RV_Score := Val (PyNum ((p PE + p PB + p PS + p EVEBITDA + p EVGP) / 5))\<rparr>"
    by simp
  then show "RV_Score (df2 ! i) = Val (PyNum ((p PE + p PB + p PS + p EVEBITDA + p EVGP) / 5))"
    by simp
next
  fix df0
  assume c: "calculate_percentiles df0 = Inr df"
  then have "\<exists>df2. calculate_rv_score df = Inr df2" by (rule ranked_rv_total)
  then show "\<exists>df2. calculate_rv_score df = Inr df2 \<and> length df2 = length df"
    using calculate_rv_score_Inr by blast
next
  fix df0 i and p :: "metric \<Rightarrow> rat"
  assume c: "calculate_percentiles df0 = Inr df"
    and a: "i < length df \<and> (\<forall>m. get_percentile m (df ! i) = Val (PyNum (p m)))"
  have b: "0 \<le> p m \<and> p m \<le> 1" for m
  proof -
    from a have i: "i < length df" and g: "get_percentile m (df ! i) = Val (PyNum (p m))"
      by blast+
    from ranked_cells[OF c i, of m] g show ?thesis by auto
  qed
  from b[of PE] b[of PB] b[of PS] b[of EVEBITDA] b[of EVGP]
  show "0 \<le> (p PE + p PB + p PS + p EVEBITDA + p EVGP) / 5" by simp
  from b[of PE] b[of PB] b[of PS] b[of EVEBITDA] b[of EVGP]
  show "(p PE + p PB + p PS + p EVEBITDA + p EVGP) / 5 \<le> 1" by simp
qed

theorem rv_score_is_mean_witness:
  "\<exists>df2. calculate_rv_score tied_ranked = Inr df2 \<and> RV_Score (df2 ! 0) = Val (PyNum (3 / 4))"
proof -
  note t = rv_score_is_mean[of tied_ranked]
  from t tied_rows_ranked obtain df2 where c: "calculate_rv_score tied_ranked = Inr df2"
    by blast
  have i: "0 < length tied_ranked" by (simp add: tied_ranked_def tied_rows_def)
  have p: "\<forall>m. get_percentile m (tied_ranked ! 0) = Val (PyNum (3 / 4))"
  proof
    fix m show "get_percentile m (tied_ranked ! 0) = Val (PyNum (3 / 4))"
      by (cases m) (simp_all add: tied_ranked_def tied_rows_def three_quarters_def)
  qed
  from c i p have h: "calculate_rv_score tied_ranked = Inr df2 \<and> 0 < length tied_ranked \<and>
      (\<forall>m. get_percentile m (tied_ranked ! 0) = Val (PyNum (3 / 4)))" by blast
  note t[THEN conjunct1, rule_format, of df2 0 "\<lambda>m. 3 / 4", OF h]
  then have "RV_Score (df2 ! 0) = Val (PyNum (3 / 4))" by simp
  with c show ?thesis by blast
qed

lemma rv_pipeline_cells:
  "\<exists>df1 df2. calculate_percentiles (impute df) = Inr df1 \<and> calculate_rv_score df1 = Inr df2 \<and>
     rv_pipeline df = Inr df2 \<and> length df1 = length df \<and> length df2 = length df \<and>
     (\<forall>i<length df. \<forall>m. get_metric m (df1 ! i) = get_metric m (impute df ! i)) \<and>
     (\<forall>i<length df. rv_result df1 i = Inr (df2 ! i))"
proof -
  have "\<exists>q. percentile_cell (impute df) m (get_metric m (impute df ! j)) = Inr q"
    if "j < length (impute df)" for j m
  proof (rule percentile_cell_total)
    show "PyNone \<notin> set (column m (impute df))" by (rule impute_no_None)
    show "get_metric m (impute df ! j) \<in> set (column m (impute df))"
      using that by (simp add: column_def)
  qed
  then have "\<exists>df1. calculate_percentiles (impute df) = Inr df1"
    by (rule calculate_percentiles_total)
  then obtain df1 where c1: "calculate_percentiles (impute df) = Inr df1" ..
  note r1 = calculate_percentiles_Inr[OF c1]
  from ranked_rv_total[OF c1] obtain df2 where c2: "calculate_rv_score df1 = Inr df2" ..
  note r2 = calculate_rv_score_Inr[OF c2]
  have p: "rv_pipeline df = Inr df2" by (simp add: rv_pipeline_def c1 c2)
  from r1 r2 have "length df1 = length df" "length df2 = length df"
    by (simp_all add: length_impute)
  moreover from r1 have "\<forall>i<length df. \<forall>m. get_metric m (df1 ! i) = get_metric m (impute df ! i)"
    by (metis length_impute)
  moreover from r2 calculation(1) have "\<forall>i<length df. rv_result df1 i = Inr (df2 ! i)" by simp
  ultimately show ?thesis using c1 c2 p by blast
qed

text \<open>
  Claim C8. The notebook announces that missing data is replaced by the average of the
  column, and that no row with missing data is left afterwards. It does not do so for a
  metric column without any defined value, and nothing reports the column: imputation
  does not fail, the column is NaN in every row afterwards, the percentile and score
  loops run to the end with the metric still among the five that are averaged, and in
  every row the percentile of that metric and the RV score are NaN.
\<close>

theorem missing_column_propagates:
  assumes "\<not> has_value m df"
  shows "all_nan m (impute df) \<and>
     (\<exists>df2. rv_pipeline df = Inr df2 \<and> length df2 = length df \<and>
        (\<forall>i<length df. get_metric m (df2 ! i) = PyNaN \<and>
           get_percentile m (df2 ! i) = Val PyNaN \<and> RV_Score (df2 ! i) = Val PyNaN))"
proof -
  have a: "all_nan m (impute df)" using assms by (rule impute_all_missing)
  from rv_pipeline_cells[of df] obtain df1 df2 where
    c1: "calculate_percentiles (impute df) = Inr df1" and
    p: "rv_pipeline df = Inr df2" and l1: "length df1 = length df" and l2: "length df2 = length df"
    and g: "\<forall>i<length df. \<forall>m. get_metric m (df1 ! i) = get_metric m (impute df ! i)"
    and r: "\<forall>i<length df. rv_result df1 i = Inr (df2 ! i)"
    by blast
  have "get_metric m (df2 ! i) = PyNaN \<and>
        get_percentile m (df2 ! i) = Val PyNaN \<and> RV_Score (df2 ! i) = Val PyNaN"
    if i: "i < length df" for i
  proof -
    from i have i1: "i < length df1" and ii: "i < length (impute df)"
      by (simp_all add: l1 length_impute)
    from a ii have n: "get_metric m (impute df ! i) = PyNaN"
      by (simp add: all_nan_def list_all_length)
    have cells: "\<forall>m'. \<exists>v. get_percentile m' (df1 ! i) = Val v \<and> v \<noteq> PyNone"
      using ranked_cells[OF c1 i1] by blast
    from ranked_cells[OF c1 i1, of m] n have pm: "get_percentile m (df1 ! i) = Val PyNaN"
      by auto
    from py_mean_nan[OF cells pm] have "rv_result df1 i = Inr ((df1 ! i)\<lparr>RV_Score := Val PyNaN\<rparr>)"
      by (simp add: rv_result_def)
    with r i have d: "df2 ! i = (df1 ! i)\<lparr>RV_Score := Val PyNaN\<rparr>" by simp
    from g i n have "get_metric m (df1 ! i) = PyNaN" by simp
    with d pm show ?thesis
      by (simp add: get_percentile_RV_Score get_metric_RV_Score)
  qed
  with a p l2 show ?thesis by blast
qed

lemma lonely_pipeline: "rv_pipeline [lonely_row] = Inr [lonely_scored]"
  by (simp add: rv_pipeline_def impute_def impute_column_def column_def col_mean_def fillna_def
      calculate_percentiles_def calculate_rv_score_def rv_row_def py_mean_def
      metrics_keys_def percentile_cell_def lonely_row_def lonely_scored_def sample_row_def)

theorem missing_column_propagates_witness:
  "\<exists>df2. rv_pipeline [lonely_row] = Inr df2 \<and>
     EV_EBITDA_Percentile (df2 ! 0) = Val PyNaN \<and> RV_Score (df2 ! 0) = Val PyNaN"
proof -
  have h: "\<not> has_value EVEBITDA [lonely_row]" by (simp add: has_value_def lonely_row_def)
  from missing_column_propagates[OF h] obtain df2 where
    "rv_pipeline [lonely_row] = Inr df2"
    "\<forall>i<length [lonely_row]. get_metric EVEBITDA (df2 ! i) = PyNaN \<and>
           get_percentile EVEBITDA (df2 ! i) = Val PyNaN \<and> RV_Score (df2 ! i) = Val PyNaN"
    by blast
  then show ?thesis by auto
qed

end
